theory Spec2Isabelle
  imports Main "HOL-Library.Multiset"
begin

section \<open>Characters, errors and Python's string primitives\<close>

text \<open>
  The converter \<^verbatim>\<open>roam2tex.py\<close> is modelled on byte strings: a Python \<^verbatim>\<open>str\<close> is a
  \<^typ>\<open>string\<close>, Python's unbounded integers are \<^typ>\<open>int\<close>. Every exception the
  program can raise inside \<^verbatim>\<open>convert_to_tex\<close> is a value of \<open>error\<close>.
\<close>

abbreviation BSL :: char where "BSL \<equiv> CHR 0x5C"
abbreviation NL :: char where "NL \<equiv> CHR 0x0A"
abbreviation CR :: char where "CR \<equiv> CHR 0x0D"
abbreviation SPC :: char where "SPC \<equiv> CHR 0x20"

datatype error = TypeError | ValueError | IndexError

text \<open>\<^verbatim>\<open>s.startswith(p)\<close>\<close>

fun startswith :: "string \<Rightarrow> string \<Rightarrow> bool" where
  "startswith s [] = True"
| "startswith [] (p # ps) = False"
| "startswith (c # cs) (p # ps) = (c = p \<and> startswith cs ps)"

text \<open>
  \<^verbatim>\<open>text.split(sep)\<close>: the separators are found from the left and do not overlap;
  \<open>cur\<close> is the chunk being collected. Python raises \<^verbatim>\<open>ValueError\<close> on an empty separator.
\<close>

fun split_chunks :: "string \<Rightarrow> string \<Rightarrow> string \<Rightarrow> string list" where
  "split_chunks sep cur [] = [cur]"
| "split_chunks sep cur (c # cs) =
     (if startswith (c # cs) sep
      then cur # split_chunks sep [] (drop (length sep - 1) cs)
      else split_chunks sep (cur @ [c]) cs)"

definition str_split :: "string \<Rightarrow> string \<Rightarrow> error + string list" where
  "str_split text sep = (if sep = [] then Inl ValueError else Inr (split_chunks sep [] text))"

text \<open>\<^verbatim>\<open>s.replace(old, new)\<close>, again from the left and without overlaps.\<close>

fun str_replace :: "string \<Rightarrow> string \<Rightarrow> string \<Rightarrow> string" where
  "str_replace old new [] = (if old = [] then new else [])"
| "str_replace old new (c # cs) =
     (if old = [] then new @ c # str_replace old new cs
      else if startswith (c # cs) old
      then new @ str_replace old new (drop (length old - 1) cs)
      else c # str_replace old new cs)"

text \<open>\<^verbatim>\<open>sep.join(parts)\<close>\<close>

fun str_join :: "string \<Rightarrow> string list \<Rightarrow> string" where
  "str_join sep [] = []"
| "str_join sep [p] = p"
| "str_join sep (p # q # ps) = p @ sep @ str_join sep (q # ps)"

text \<open>\<^verbatim>\<open>xs.pop(k)\<close> and \<^verbatim>\<open>xs.remove(x)\<close> on Python lists, with their exceptions.\<close>

definition list_pop :: "'a list \<Rightarrow> int \<Rightarrow> error + 'a list" where
  "list_pop xs k =
     (let n = int (length xs); j = (if k < 0 then k + n else k)
      in if 0 \<le> j \<and> j < n then Inr (take (nat j) xs @ drop (Suc (nat j)) xs)
         else Inl IndexError)"

definition list_remove :: "'a list \<Rightarrow> 'a \<Rightarrow> error + 'a list" where
  "list_remove xs x = (if x \<in> set xs then Inr (remove1 x xs) else Inl ValueError)"

section \<open>Markup and citations\<close>

text \<open>
  \<^verbatim>\<open>render_citation\<close>, applied to group 1 of a match of \<^verbatim>\<open>\[\[(.*?)\]\]\<close>. The test is
  \<^verbatim>\<open>re.match(r"^[a-zA-Z]+[0-9]+[a-zA-Z]*$", link_text)\<close>; the returned literal is
  \<^verbatim>\<open>"\\cite{link_text}"\<close>, a plain string and not a formatted one.
\<close>

definition is_letter :: "char \<Rightarrow> bool" where
  "is_letter c = (let n = (of_char c :: nat) in (65 \<le> n \<and> n \<le> 90) \<or> (97 \<le> n \<and> n \<le> 122))"

definition is_digit :: "char \<Rightarrow> bool" where
  "is_digit c = (let n = (of_char c :: nat) in 48 \<le> n \<and> n \<le> 57)"

definition citation_key :: "string \<Rightarrow> bool" where
  "citation_key link_text =
     (let letters = takeWhile is_letter link_text;
          r1 = dropWhile is_letter link_text;
          digits = takeWhile is_digit r1;
          r2 = dropWhile is_digit r1;
          r3 = dropWhile is_letter r2
      in letters \<noteq> [] \<and> digits \<noteq> [] \<and> (r3 = [] \<or> r3 = [NL]))"

definition render_citation :: "string \<Rightarrow> string" where
  "render_citation link_text =
     (if \<not> citation_key link_text then link_text else BSL # ''cite{link_text}'')"

text \<open>
  \<^verbatim>\<open>replace_markup_via(text, delims, fun)\<close>: the loop
  \<^verbatim>\<open>for i in range(1, len(chunks), 2): chunks[i] = fun(chunks[i])\<close> is \<open>markup_loop\<close>
  started at index 1.
\<close>

function markup_loop :: "(string \<Rightarrow> string) \<Rightarrow> nat \<Rightarrow> string list \<Rightarrow> string list" where
  "markup_loop fn i chunks =
     (if i < length chunks then markup_loop fn (i + 2) (chunks[i := fn (chunks ! i)])
      else chunks)"
  by pat_completeness auto
termination
  by (relation "measure (\<lambda>(fn, i, chunks). length chunks - i)") auto

declare markup_loop.simps [simp del]

definition replace_markup_via :: "string \<Rightarrow> string \<Rightarrow> (string \<Rightarrow> string) \<Rightarrow> error + string" where
  "replace_markup_via text delims fn =
     (case str_split text delims of
        Inl e \<Rightarrow> Inl e
      | Inr chunks \<Rightarrow> Inr (concat (markup_loop fn 1 chunks)))"

definition emph :: "string \<Rightarrow> string" where
  "emph t = BSL # ''emph{'' @ t @ ''}''"

definition textbf :: "string \<Rightarrow> string" where
  "textbf t = BSL # ''textbf{'' @ t @ ''}''"

definition hl :: "string \<Rightarrow> string" where
  "hl t = BSL # ''hl{'' @ t @ ''}''"

section \<open>The regular expressions of \<^verbatim>\<open>convert_to_tex\<close>\<close>

text \<open>
  Each pattern is written out as the function it computes. In these patterns \<^verbatim>\<open>.\<close>
  matches every character but the newline, \<^verbatim>\<open>^\<close> matches at the start of the string
  only, and \<^verbatim>\<open>$\<close> at its end or before a newline that ends it.
\<close>

text \<open>\<^verbatim>\<open>len(re.match(r" *", line).group())\<close>\<close>

definition leading_indent :: "string \<Rightarrow> int" where
  "leading_indent line = int (length (takeWhile (\<lambda>c. c = SPC) line))"

text \<open>\<^verbatim>\<open>re.sub(r"^ *(- )?", "", line)\<close>\<close>

definition strip_bullet :: "string \<Rightarrow> string" where
  "strip_bullet line =
     (let r = dropWhile (\<lambda>c. c = SPC) line
      in if startswith r ''- '' then drop 2 r else r)"

text \<open>\<^verbatim>\<open>line.startswith(tuple([f"{s}::" for s in ignore_properties]))\<close>\<close>

definition ignored_property :: "string list \<Rightarrow> string \<Rightarrow> bool" where
  "ignored_property ignore_properties line =
     list_ex (\<lambda>s. startswith line (s @ ''::'')) ignore_properties"

text \<open>
  \<^verbatim>\<open>re.sub(r"^\{\{(.+?)\}\}", "", line)\<close>: \<open>directive_end\<close> looks for the first closing
  pair of braces once one character of the group has been read, and returns what follows.
\<close>

fun directive_end :: "string \<Rightarrow> string option" where
  "directive_end [] = None"
| "directive_end (c # cs) =
     (if startswith (c # cs) ''}}'' then Some (drop 1 cs)
      else if c = NL then None
      else directive_end cs)"

definition strip_directive :: "string \<Rightarrow> string" where
  "strip_directive line =
     (if startswith line ''{{''
      then (case drop 2 line of
              [] \<Rightarrow> line
            | c # cs \<Rightarrow>
                if c = NL then line
                else (case directive_end cs of None \<Rightarrow> line | Some rest \<Rightarrow> rest))
      else line)"

text \<open>
  \<^verbatim>\<open>re.sub(r"^# (.*)", lambda m : f"\n\\section{{{m.group(1)}}}", line)\<close> and its two
  siblings: \<open>marker\<close> is the run of hashes, \<open>command\<close> the sectioning command.
\<close>

definition heading_sub :: "string \<Rightarrow> string \<Rightarrow> string \<Rightarrow> string" where
  "heading_sub marker command line =
     (if startswith line (marker @ '' '')
      then (let rest = drop (length marker + 1) line;
                title = takeWhile (\<lambda>c. c \<noteq> NL) rest;
                remainder = dropWhile (\<lambda>c. c \<noteq> NL) rest
            in NL # BSL # command @ ''{'' @ title @ ''}'' @ remainder)
      else line)"

text \<open>\<^verbatim>\<open>re.match(r"\\begin\{(.*?)\}", line)\<close>, giving group 1.\<close>

definition env_begin :: "string \<Rightarrow> string option" where
  "env_begin line =
     (if startswith line (BSL # ''begin{'')
      then (let rest = drop 7 line;
                name = takeWhile (\<lambda>c. c \<noteq> CHR ''}'' \<and> c \<noteq> NL) rest;
                after = dropWhile (\<lambda>c. c \<noteq> CHR ''}'' \<and> c \<noteq> NL) rest
            in if startswith after ''}'' then Some name else None)
      else None)"

text \<open>\<^verbatim>\<open>re.match(r"^\$\$([^$]*?)\$\$$", line)\<close>, giving group 1.\<close>

definition latex_eq :: "string \<Rightarrow> string option" where
  "latex_eq line =
     (if startswith line ''$$''
      then (let rest = drop 2 line;
                content = takeWhile (\<lambda>c. c \<noteq> CHR ''$'') rest;
                after = dropWhile (\<lambda>c. c \<noteq> CHR ''$'') rest
            in if after = ''$$'' \<or> after = ''$$'' @ [NL] then Some content else None)
      else None)"

text \<open>
  \<^verbatim>\<open>re.sub(r"\[\[(.*?)\]\]", render_citation, line)\<close>: \<open>link_end\<close> reads group 1 after
  an opening pair of brackets; the scan resumes behind the match.
\<close>

fun link_end :: "string \<Rightarrow> string \<Rightarrow> string option" where
  "link_end text [] = None"
| "link_end text (c # cs) =
     (if startswith (c # cs) '']]'' then Some text
      else if c = NL then None
      else link_end (text @ [c]) cs)"

fun sub_roam_links :: "string \<Rightarrow> string" where
  "sub_roam_links [] = []"
| "sub_roam_links (c # cs) =
     (if startswith (c # cs) ''[[''
      then (case link_end [] (drop 1 cs) of
              Some text \<Rightarrow> render_citation text @ sub_roam_links (drop (length text + 3) cs)
            | None \<Rightarrow> c # sub_roam_links cs)
      else c # sub_roam_links cs)"

text \<open>
  \<^verbatim>\<open>re.sub(r"\[(.*?)\]\((.*)\)", lambda m : f"\\href{{{m.group(2)}}}{{{m.group(1)}}}", line)\<close>:
  group 2 is greedy, so it runs to the last closing parenthesis before the newline
  (\<open>href_target\<close>); group 1 is lazy, so \<open>link_label\<close> takes the first closing bracket
  after which the rest of the pattern matches.
\<close>

definition href_target :: "string \<Rightarrow> string option" where
  "href_target s =
     (let seg = takeWhile (\<lambda>c. c \<noteq> NL) s
      in if CHR '')'' \<in> set seg
         then Some (rev (tl (dropWhile (\<lambda>c. c \<noteq> CHR '')'') (rev seg))))
         else None)"

fun link_label :: "string \<Rightarrow> string \<Rightarrow> (string \<times> string) option" where
  "link_label label [] = None"
| "link_label label (c # cs) =
     (case (if startswith (c # cs) '']('' then href_target (drop 1 cs) else None) of
        Some target \<Rightarrow> Some (label, target)
      | None \<Rightarrow> if c = NL then None else link_label (label @ [c]) cs)"

fun sub_inline_links :: "string \<Rightarrow> string" where
  "sub_inline_links [] = []"
| "sub_inline_links (c # cs) =
     (if c = CHR ''[''
      then (case link_label [] cs of
              Some (label, target) \<Rightarrow>
                BSL # ''href{'' @ target @ ''}{'' @ label @ ''}''
                  @ sub_inline_links (drop (length label + length target + 3) cs)
            | None \<Rightarrow> c # sub_inline_links cs)
      else c # sub_inline_links cs)"

section \<open>The state of a conversion and the per-line step\<close>

record state =
  section_indent :: "int option"
  par_indent :: "int option"
  environments :: "(int \<times> string) list"
  enum_indents :: "int list"

definition init_state :: state where
  "init_state = \<lparr>section_indent = None, par_indent = None, environments = [], enum_indents = []\<rparr>"

definition end_text :: "string \<Rightarrow> string" where
  "end_text env = BSL # ''end{'' @ env @ ''}'' @ [NL]"

definition list_env :: "string \<Rightarrow> bool" where
  "list_env env = (env \<in> set [''enumerate'', ''itemize''])"

text \<open>
  The closing loop \<^verbatim>\<open>for i, (ind, env) in enumerate(environments[::-1])\<close>: the list
  iterated is the reversed copy taken before the loop, \<open>len\<close> is \<^verbatim>\<open>length\<close>, and the
  triple holds \<^verbatim>\<open>add_text\<close>, \<^verbatim>\<open>environments\<close> and \<^verbatim>\<open>enum_indents\<close>.
\<close>

fun close_envs ::
  "int \<Rightarrow> int \<Rightarrow> nat \<Rightarrow> nat \<Rightarrow> (int \<times> string) list \<Rightarrow>
   string \<times> (int \<times> string) list \<times> int list \<Rightarrow>
   error + (string \<times> (int \<times> string) list \<times> int list)" where
  "close_envs indent indent_size len i [] acc = Inr acc"
| "close_envs indent indent_size len i ((ind, env) # rest) (add_text, envs, enums) =
     (if indent \<le> ind
      then (case list_pop envs (int len - int i - 1) of
              Inl e \<Rightarrow> Inl e
            | Inr envs' \<Rightarrow>
                if list_env env
                then (case list_remove enums (ind + indent_size) of
                        Inl e \<Rightarrow> Inl e
                      | Inr enums' \<Rightarrow>
                          close_envs indent indent_size len (Suc i) rest
                            (add_text @ end_text env, envs', enums'))
                else close_envs indent indent_size len (Suc i) rest
                       (add_text @ end_text env, envs', enums))
      else Inr (add_text, envs, enums))"

text \<open>
  Lines 106 to 122: the equation block, or else the markup passes, the inline-math
  replacement, the two link substitutions and the item marker.
\<close>

definition inline_markup :: "string \<Rightarrow> error + string" where
  "inline_markup line =
     (case replace_markup_via line ''__'' emph of
        Inl e \<Rightarrow> Inl e
      | Inr l1 \<Rightarrow>
     (case replace_markup_via l1 ''**'' textbf of
        Inl e \<Rightarrow> Inl e
      | Inr l2 \<Rightarrow>
     (case replace_markup_via l2 ''^^'' hl of
        Inl e \<Rightarrow> Inl e
      | Inr l3 \<Rightarrow>
          Inr (sub_inline_links (sub_roam_links (str_replace ''$$'' ''$'' l3))))))"

definition equation_block :: "string \<Rightarrow> string" where
  "equation_block content =
     BSL # ''begin{equation*}'' @ [NL] @ content @ [NL] @ BSL # ''end{equation*}''"

definition render_line :: "int \<Rightarrow> int list \<Rightarrow> string \<Rightarrow> error + string" where
  "render_line indent enums line =
     (case latex_eq line of
        Some content \<Rightarrow> Inr (equation_block content)
      | None \<Rightarrow>
          (case inline_markup line of
             Inl e \<Rightarrow> Inl e
           | Inr l \<Rightarrow> Inr (if indent \<in> set enums then BSL # ''item '' @ l else l)))"

text \<open>Lines 56 to 64: the indent and the cleaned text of a raw line.\<close>

definition clean_line :: "string list \<Rightarrow> string \<Rightarrow> string" where
  "clean_line ignore_properties raw =
     (let line = strip_bullet raw;
          line = (if ignored_property ignore_properties line then [] else line)
      in strip_directive line)"

text \<open>Lines 93 to 95.\<close>

definition headings :: "string \<Rightarrow> string" where
  "headings line =
     heading_sub ''###'' ''subsubsection''
       (heading_sub ''##'' ''subsection'' (heading_sub ''#'' ''section'' line))"

text \<open>
  One iteration of the loop over the input lines, up to line 122. The result is the new
  state with \<^verbatim>\<open>add_text\<close> and \<^verbatim>\<open>line\<close> as they stand before line 124 joins them.
  The comparison \<^verbatim>\<open>indent <= par_indent\<close> of line 88 raises \<^verbatim>\<open>TypeError\<close> in Python 3
  when \<^verbatim>\<open>par_indent\<close> is \<^verbatim>\<open>None\<close>.
\<close>

definition line_step ::
  "int \<Rightarrow> string list \<Rightarrow> state \<Rightarrow> string \<Rightarrow> error + (state \<times> string \<times> string)" where
  "line_step indent_size ignore_properties st raw =
     (let indent = leading_indent raw;
          line = clean_line ignore_properties raw;
          is_section = startswith line ''#'';
          sec = (if is_section then Some indent else section_indent st);
          par = (if is_section then None
                 else if par_indent st = None then Some indent
                 else par_indent st)
      in case close_envs indent indent_size (length (environments st)) 0
                (rev (environments st)) ([], environments st, enum_indents st) of
           Inl e \<Rightarrow> Inl e
         | Inr (add_text, envs, enums) \<Rightarrow>
             (case par of
                None \<Rightarrow> Inl TypeError
              | Some p \<Rightarrow>
                  (let add_text = (if indent \<le> p then add_text @ [NL] else add_text);
                       par = (if indent \<le> p then indent else p);
                       line = headings line;
                       envs = (case env_begin line of
                                 Some environment \<Rightarrow> envs @ [(indent, environment)]
                               | None \<Rightarrow> envs);
                       enums = (case env_begin line of
                                  Some environment \<Rightarrow>
                                    if list_env environment
                                    then enums @ [indent + indent_size] else enums
                                | None \<Rightarrow> enums)
                   in case render_line indent enums line of
                        Inl e \<Rightarrow> Inl e
                      | Inr line \<Rightarrow>
                          Inr (\<lparr>section_indent = sec, par_indent = Some par,
                                environments = envs, enum_indents = enums\<rparr>,
                               add_text, line))))"

text \<open>Lines 124 and 126: what the iteration writes.\<close>

definition process_line ::
  "int \<Rightarrow> string list \<Rightarrow> state \<Rightarrow> string \<Rightarrow> error + (state \<times> string)" where
  "process_line indent_size ignore_properties st raw =
     (case line_step indent_size ignore_properties st raw of
        Inl e \<Rightarrow> Inl e
      | Inr (st', add_text, line) \<Rightarrow> Inr (st', add_text @ line @ [NL]))"

section \<open>The whole conversion\<close>

text \<open>
  The input is opened with \<^verbatim>\<open>open(infile_name, "r")\<close>, in text mode with universal
  newlines: a carriage return followed by a line feed, and a carriage return alone, reach
  the program as one line feed.
\<close>

fun universal_newlines :: "string \<Rightarrow> string" where
  "universal_newlines [] = []"
| "universal_newlines [c] = [if c = CR then NL else c]"
| "universal_newlines (c # d # cs) =
     (if c = CR \<and> d = NL then NL # universal_newlines cs
      else if c = CR then NL # universal_newlines (d # cs)
      else c # universal_newlines (d # cs))"

text \<open>
  Iterating over the open file yields its lines, each with the newline that ends it
  (the last one possibly without). An exception in one line ends the run.
\<close>

fun file_lines :: "string \<Rightarrow> string \<Rightarrow> string list" where
  "file_lines cur [] = (if cur = [] then [] else [cur])"
| "file_lines cur (c # cs) =
     (if c = NL then (cur @ [NL]) # file_lines [] cs else file_lines (cur @ [c]) cs)"

fun convert_lines ::
  "int \<Rightarrow> string list \<Rightarrow> state \<Rightarrow> string list \<Rightarrow> error + (state \<times> string)" where
  "convert_lines indent_size ignore_properties st [] = Inr (st, [])"
| "convert_lines indent_size ignore_properties st (raw # rest) =
     (case process_line indent_size ignore_properties st raw of
        Inl e \<Rightarrow> Inl e
      | Inr (st', written) \<Rightarrow>
          (case convert_lines indent_size ignore_properties st' rest of
             Inl e \<Rightarrow> Inl e
           | Inr (st'', out) \<Rightarrow> Inr (st'', written @ out)))"

definition convert_to_tex ::
  "string \<Rightarrow> string \<Rightarrow> int \<Rightarrow> string list \<Rightarrow> error + string" where
  "convert_to_tex infile preamble indent_size ignore_properties =
     (case convert_lines indent_size ignore_properties init_state
             (file_lines [] (universal_newlines infile)) of
        Inl e \<Rightarrow> Inl e
      | Inr (st, out) \<Rightarrow>
          Inr (preamble @ BSL # ''begin{document}'' @ out
               @ (if environments st \<noteq> []
                  then str_join [NL] (map (\<lambda>(ind, env). end_text env) (rev (environments st)))
                  else [])
               @ NL # BSL # ''end{document}''))"

definition default_ignore :: "string list" where
  "default_ignore = [''tags'', ''do'', ''due'']"

section \<open>Notions used to state the properties\<close>

text \<open>
  The entries \<^verbatim>\<open>enum_indents\<close> should hold for a stack of frames: one per list
  environment, its opening indent plus the indent size.
\<close>

definition item_entries :: "int \<Rightarrow> (int \<times> string) list \<Rightarrow> int list" where
  "item_entries indent_size envs =
     map (\<lambda>(ind, env). ind + indent_size) (filter (\<lambda>(ind, env). list_env env) envs)"

text \<open>
  The invariant of the structure tracker: \<^verbatim>\<open>enum_indents\<close> holds exactly the entries of
  the open list frames, and the opening indents do not decrease from bottom to top.
\<close>

definition tracker_inv :: "int \<Rightarrow> state \<Rightarrow> bool" where
  "tracker_inv indent_size st =
     (mset (enum_indents st) = mset (item_entries indent_size (environments st)) \<and>
      sorted (map fst (environments st)))"

text \<open>
  The frames a line of a given indent closes and keeps, the frame it opens, and the text
  of the closing commands, top of the stack first.
\<close>

definition closed_frames :: "int \<Rightarrow> (int \<times> string) list \<Rightarrow> (int \<times> string) list" where
  "closed_frames indent envs = filter (\<lambda>(ind, env). indent \<le> ind) envs"

definition kept_frames :: "int \<Rightarrow> (int \<times> string) list \<Rightarrow> (int \<times> string) list" where
  "kept_frames indent envs = filter (\<lambda>(ind, env). ind < indent) envs"

definition opened_frame :: "int \<Rightarrow> string \<Rightarrow> (int \<times> string) list" where
  "opened_frame indent line =
     (case env_begin line of Some name \<Rightarrow> [(indent, name)] | None \<Rightarrow> [])"

definition closing_text :: "(int \<times> string) list \<Rightarrow> string" where
  "closing_text frames = concat (map (\<lambda>(ind, env). end_text env) (rev frames))"

definition item_marker :: string where
  "item_marker = BSL # ''item ''"

text \<open>An indent is an item indent when some open list frame lies one indent size below it.\<close>

definition item_indent :: "int \<Rightarrow> (int \<times> string) list \<Rightarrow> int \<Rightarrow> bool" where
  "item_indent indent_size envs indent =
     list_ex (\<lambda>(ind, env). list_env env \<and> indent = ind + indent_size) envs"

text \<open>
  The paragraph baseline a line is compared with: the stored one, or the line's own indent
  when none is stored.
\<close>

definition baseline :: "state \<Rightarrow> int \<Rightarrow> int" where
  "baseline st indent = (case par_indent st of None \<Rightarrow> indent | Some p \<Rightarrow> p)"

text \<open>
  Occurrences of a delimiter: \<open>has_sub\<close> says that one occurs, \<open>str_count\<close> counts them
  from the left without overlaps, as \<^verbatim>\<open>str.count\<close> and \<^verbatim>\<open>str.split\<close> do.
\<close>

fun has_sub :: "string \<Rightarrow> string \<Rightarrow> bool" where
  "has_sub [] sub = (sub = [])"
| "has_sub (c # cs) sub = (startswith (c # cs) sub \<or> has_sub cs sub)"

fun str_count :: "string \<Rightarrow> string \<Rightarrow> nat" where
  "str_count [] sub = 0"
| "str_count (c # cs) sub =
     (if startswith (c # cs) sub then Suc (str_count (drop (length sub - 1) cs) sub)
      else str_count cs sub)"

text \<open>
  The pairing the markup passes are meant to perform on the chunks between delimiters:
  the chunks at odd positions are wrapped, the others are left alone.
\<close>

fun wrap_odd :: "(string \<Rightarrow> string) \<Rightarrow> string list \<Rightarrow> string list" where
  "wrap_odd fn (c0 # c1 # chunks) = c0 # fn c1 # wrap_odd fn chunks"
| "wrap_odd fn chunks = chunks"

text \<open>The three calls of \<^verbatim>\<open>replace_markup_via\<close> on lines 111 to 113.\<close>

definition markup_passes :: "(string \<times> (string \<Rightarrow> string)) list" where
  "markup_passes = [(''__'', emph), (''**'', textbf), (''^^'', hl)]"

text \<open>
  The passes applied one after the other, each to the result of the one before, as the
  three assignments to \<^verbatim>\<open>line\<close> on lines 111 to 113 do.
\<close>

fun apply_passes :: "(string \<times> (string \<Rightarrow> string)) list \<Rightarrow> string \<Rightarrow> error + string" where
  "apply_passes [] line = Inr line"
| "apply_passes ((delims, fn) # passes) line =
     (case replace_markup_via line delims fn of
        Inl e \<Rightarrow> Inl e
      | Inr l \<Rightarrow> apply_passes passes l)"

definition delim_chars :: "char set" where
  "delim_chars = {CHR ''_'', CHR ''*'', CHR ''^''}"

text \<open>
  What lines 115 to 119 do to the text the markup passes leave: the inline-math
  replacement and the two link substitutions.
\<close>

definition link_passes :: "string \<Rightarrow> string" where
  "link_passes l = sub_inline_links (sub_roam_links (str_replace ''$$'' ''$'' l))"

section \<open>Unfolding rules for evaluation\<close>

lemmas clean_defs = clean_line_def strip_bullet_def ignored_property_def strip_directive_def
  default_ignore_def
lemmas render_defs = render_line_def latex_eq_def inline_markup_def replace_markup_via_def
  str_split_def markup_loop.simps emph_def textbf_def hl_def render_citation_def
  citation_key_def is_letter_def is_digit_def href_target_def equation_block_def
lemmas step_defs = process_line_def line_step_def leading_indent_def headings_def heading_sub_def
  env_begin_def list_env_def list_pop_def list_remove_def end_text_def init_state_def
lemmas frame_defs = closed_frames_def kept_frames_def opened_frame_def closing_text_def
  item_indent_def item_marker_def baseline_def

section \<open>The closing loop and the invariant of the structure tracker\<close>

lemma list_pop_last: "list_pop (xs @ [x]) (int (length xs)) = Inr xs"
  by (simp add: list_pop_def)

lemma item_entries_append:
  "item_entries isz (xs @ ys) = item_entries isz xs @ item_entries isz ys"
  by (simp add: item_entries_def)

lemma item_entries_single:
  "item_entries isz [(ind, env)] = (if list_env env then [ind + isz] else [])"
  by (simp add: item_entries_def)

lemma list_remove_entry:
  assumes "mset enums = mset (item_entries isz (xs @ [(ind, env)]))" "list_env env"
  shows "\<exists>enums'. list_remove enums (ind + isz) = Inr enums' \<and>
           mset enums' = mset (item_entries isz xs)"
proof -
  from assms have m: "mset enums = mset (item_entries isz xs) + {#ind + isz#}"
    by (simp add: item_entries_append item_entries_single)
  then have "ind + isz \<in># mset enums" by simp
  then have mem: "ind + isz \<in> set enums" by simp
  have "mset (remove1 (ind + isz) enums) = mset (item_entries isz xs)"
    using m by simp
  with mem show ?thesis by (simp add: list_remove_def)
qed

lemma close_envs_shape:
  assumes "len = length rest + i" "mset enums = mset (item_entries isz (rev rest))"
  shows "\<exists>enums'. close_envs indent isz len i rest (add, rev rest, enums)
           = Inr (add @ concat (map (\<lambda>(ind, env). end_text env)
                                  (takeWhile (\<lambda>(ind, env). indent \<le> ind) rest)),
                  rev (dropWhile (\<lambda>(ind, env). indent \<le> ind) rest), enums') \<and>
           mset enums' = mset (item_entries isz (rev (dropWhile (\<lambda>(ind, env). indent \<le> ind) rest)))"
  using assms
proof (induction rest arbitrary: i add enums)
  case Nil
  then show ?case by simp
next
  case (Cons fr rest)
  obtain ind env where fr: "fr = (ind, env)" by (cases fr)
  show ?case
  proof (cases "indent \<le> ind")
    case False
    with Cons.prems fr show ?thesis by simp
  next
    case True
    have pop: "list_pop (rev rest @ [(ind, env)]) (int len - int i - 1) = Inr (rev rest)"
      using Cons.prems(1) list_pop_last [of "rev rest" "(ind, env)"] by simp
    have len': "len = length rest + Suc i" using Cons.prems(1) by simp
    show ?thesis
    proof (cases "list_env env")
      case le: True
      from Cons.prems(2) fr have "mset enums = mset (item_entries isz (rev rest @ [(ind, env)]))"
        by simp
      from list_remove_entry [OF this le] obtain enums1 where
        r: "list_remove enums (ind + isz) = Inr enums1" and
        m: "mset enums1 = mset (item_entries isz (rev rest))" by blast
      from Cons.IH [OF len' m, of "add @ end_text env"] obtain enums' where
        "close_envs indent isz len (Suc i) rest (add @ end_text env, rev rest, enums1)
           = Inr ((add @ end_text env) @ concat (map (\<lambda>(ind, env). end_text env)
                                  (takeWhile (\<lambda>(ind, env). indent \<le> ind) rest)),
                  rev (dropWhile (\<lambda>(ind, env). indent \<le> ind) rest), enums')"
        "mset enums' = mset (item_entries isz (rev (dropWhile (\<lambda>(ind, env). indent \<le> ind) rest)))"
        by blast
      with True fr pop r le show ?thesis by simp
    next
      case le: False
      from Cons.prems(2) fr le have m: "mset enums = mset (item_entries isz (rev rest))"
        by (simp add: item_entries_append item_entries_single)
      from Cons.IH [OF len' m, of "add @ end_text env"] obtain enums' where
        "close_envs indent isz len (Suc i) rest (add @ end_text env, rev rest, enums)
           = Inr ((add @ end_text env) @ concat (map (\<lambda>(ind, env). end_text env)
                                  (takeWhile (\<lambda>(ind, env). indent \<le> ind) rest)),
                  rev (dropWhile (\<lambda>(ind, env). indent \<le> ind) rest), enums')"
        "mset enums' = mset (item_entries isz (rev (dropWhile (\<lambda>(ind, env). indent \<le> ind) rest)))"
        by blast
      with True fr pop le show ?thesis by simp
    qed
  qed
qed

lemma sorted_top_segment:
  assumes "sorted (map fst envs)"
  shows "rev (dropWhile (\<lambda>(ind, env). indent \<le> ind) (rev envs)) = kept_frames indent envs \<and>
         rev (takeWhile (\<lambda>(ind, env). indent \<le> ind) (rev envs)) = closed_frames indent envs"
  using assms
proof (induction envs rule: rev_induct)
  case Nil
  show ?case by (simp add: kept_frames_def closed_frames_def)
next
  case (snoc fr envs)
  obtain ind env where fr: "fr = (ind, env)" by (cases fr)
  from snoc.prems have s: "sorted (map fst envs)" and
    le: "\<forall>x \<in> set envs. fst x \<le> ind"
    by (auto simp: fr sorted_append)
  show ?case
  proof (cases "indent \<le> ind")
    case True
    with snoc.IH [OF s] fr show ?thesis
      by (simp add: kept_frames_def closed_frames_def)
  next
    case False
    with le have "\<forall>x \<in> set envs. fst x < indent" by auto
    then have "filter (\<lambda>(ind, env). ind < indent) envs = envs"
      "filter (\<lambda>(ind, env). indent \<le> ind) envs = []"
      by (auto simp: filter_id_conv filter_empty_conv)
    with False fr show ?thesis
      by (simp add: kept_frames_def closed_frames_def)
  qed
qed

lemma frames_partition:
  assumes "sorted (map fst envs)"
  shows "envs = kept_frames indent envs @ closed_frames indent envs"
proof -
  have "envs = rev (rev envs)" by simp
  also have "rev envs = takeWhile (\<lambda>(ind, env). indent \<le> ind) (rev envs)
                   @ dropWhile (\<lambda>(ind, env). indent \<le> ind) (rev envs)" by simp
  finally have "envs = rev (dropWhile (\<lambda>(ind, env). indent \<le> ind) (rev envs))
                   @ rev (takeWhile (\<lambda>(ind, env). indent \<le> ind) (rev envs))"
    by (metis rev_append)
  with sorted_top_segment [OF assms, of indent] show ?thesis by simp
qed

lemma sorted_kept_opened:
  assumes "sorted (map fst envs)"
  shows "sorted (map fst (kept_frames indent envs @ opened_frame indent line))"
proof -
  have k: "sorted (map fst (kept_frames indent envs))"
    unfolding kept_frames_def using assms by (simp add: sorted_filter)
  have "\<forall>x \<in> set (kept_frames indent envs). fst x \<le> indent"
    by (auto simp: kept_frames_def)
  with k show ?thesis
    by (auto simp: opened_frame_def sorted_append split: option.splits)
qed

lemma inline_markup_total: "\<exists>l. inline_markup line = Inr l"
  by (simp add: inline_markup_def replace_markup_via_def str_split_def)

lemma headings_id: "\<not> startswith line ''#'' \<Longrightarrow> headings line = line"
  by (cases line) (auto simp: headings_def heading_sub_def)

text \<open>
  A line that is not a heading never raises in a state that satisfies the invariant, and
  this is what its iteration computes.
\<close>

lemma line_step_shape:
  fixes isz :: int and st :: state and raw :: string and ign :: "string list"
  defines "indent \<equiv> leading_indent raw"
      and "line \<equiv> clean_line ign raw"
      and "base \<equiv> (case par_indent st of None \<Rightarrow> leading_indent raw | Some p \<Rightarrow> p)"
  assumes inv: "tracker_inv isz st"
      and nh: "\<not> startswith (clean_line ign raw) ''#''"
  shows "\<exists>enums' l.
     inline_markup line = Inr l \<and>
     line_step isz ign st raw =
       Inr (\<lparr>section_indent = section_indent st,
             par_indent = Some (if indent \<le> base then indent else base),
             environments = kept_frames indent (environments st) @ opened_frame indent line,
             enum_indents = enums'\<rparr>,
            concat (map (\<lambda>(ind, env). end_text env) (rev (closed_frames indent (environments st))))
              @ (if indent \<le> base then [NL] else []),
            (case latex_eq line of
               Some content \<Rightarrow> equation_block content
             | None \<Rightarrow> if indent \<in> set enums' then item_marker @ l else l)) \<and>
     mset enums' = mset (item_entries isz
                      (kept_frames indent (environments st) @ opened_frame indent line))"
proof -
  let ?P = "\<lambda>(ind, env). indent \<le> (ind :: int)"
  let ?E = "environments st"
  from inv have m: "mset (enum_indents st) = mset (item_entries isz (rev (rev ?E)))"
    and s: "sorted (map fst ?E)" by (simp_all add: tracker_inv_def)
  have len: "length ?E = length (rev ?E) + 0" by simp
  from close_envs_shape [OF len m, of indent "[]"] obtain enums1 where
    c: "close_envs indent isz (length ?E) 0 (rev ?E) ([], ?E, enum_indents st)
          = Inr (concat (map (\<lambda>(ind, env). end_text env) (takeWhile ?P (rev ?E))),
                 rev (dropWhile ?P (rev ?E)), enums1)" and
    m1: "mset enums1 = mset (item_entries isz (rev (dropWhile ?P (rev ?E))))"
    by auto
  from sorted_top_segment [OF s, of indent] have
    k: "rev (dropWhile ?P (rev ?E)) = kept_frames indent ?E" and
    t: "takeWhile ?P (rev ?E) = rev (closed_frames indent ?E)"
    by (simp, metis rev_rev_ident)
  obtain l where l: "inline_markup line = Inr l" using inline_markup_total by blast
  let ?enums' = "enums1 @ item_entries isz (opened_frame indent line)"
  have h: "headings line = line" using nh headings_id by (simp add: line_def)
  have e: "(case env_begin line of
              Some environment \<Rightarrow> if list_env environment then enums1 @ [indent + isz] else enums1
            | None \<Rightarrow> enums1) = ?enums'"
    by (simp add: opened_frame_def item_entries_def split: option.splits)
  have o: "(case env_begin line of
              Some environment \<Rightarrow> kept_frames indent ?E @ [(indent, environment)]
            | None \<Rightarrow> kept_frames indent ?E) = kept_frames indent ?E @ opened_frame indent line"
    by (simp add: opened_frame_def split: option.splits)
  have "line_step isz ign st raw =
       Inr (\<lparr>section_indent = section_indent st,
             par_indent = Some (if indent \<le> base then indent else base),
             environments = kept_frames indent ?E @ opened_frame indent line,
             enum_indents = ?enums'\<rparr>,
            concat (map (\<lambda>(ind, env). end_text env) (rev (closed_frames indent ?E)))
              @ (if indent \<le> base then [NL] else []),
            (case latex_eq line of
               Some content \<Rightarrow> equation_block content
             | None \<Rightarrow> if indent \<in> set ?enums' then item_marker @ l else l))"
    using nh c k t l h e o
    unfolding line_step_def indent_def [symmetric] line_def [symmetric] Let_def
    by (cases "par_indent st")
       (auto simp: base_def indent_def render_line_def item_marker_def split: option.splits)
  moreover have "mset ?enums' = mset (item_entries isz (kept_frames indent ?E @ opened_frame indent line))"
    using m1 k by (simp add: item_entries_append)
  ultimately show ?thesis using l by blast
qed

lemma line_step_heading:
  "startswith (clean_line ign raw) ''#'' \<Longrightarrow> \<exists>e. line_step isz ign st raw = Inl e"
  by (simp add: line_step_def Let_def split: sum.splits prod.splits)

lemma init_inv: "tracker_inv isz init_state"
  by (simp add: tracker_inv_def init_state_def item_entries_def)

lemma line_step_inv:
  assumes "tracker_inv isz st" "line_step isz ign st raw = Inr (st', add_text, body)"
  shows "tracker_inv isz st'"
proof (cases "startswith (clean_line ign raw) ''#''")
  case True
  from line_step_heading [OF this, of isz st] assms(2) show ?thesis by auto
next
  case False
  from line_step_shape [OF assms(1) False] assms(2)
  obtain enums' where
    st': "st' = \<lparr>section_indent = section_indent st,
             par_indent = Some (if leading_indent raw \<le> (case par_indent st of None \<Rightarrow> leading_indent raw | Some p \<Rightarrow> p)
                                then leading_indent raw
                                else (case par_indent st of None \<Rightarrow> leading_indent raw | Some p \<Rightarrow> p)),
             environments = kept_frames (leading_indent raw) (environments st)
                              @ opened_frame (leading_indent raw) (clean_line ign raw),
             enum_indents = enums'\<rparr>" and
    m: "mset enums' = mset (item_entries isz
                      (kept_frames (leading_indent raw) (environments st)
                         @ opened_frame (leading_indent raw) (clean_line ign raw)))"
    by auto
  from assms(1) have "sorted (map fst (environments st))" by (simp add: tracker_inv_def)
  from sorted_kept_opened [OF this] st' m show ?thesis
    by (simp add: tracker_inv_def)
qed

lemma convert_lines_inv:
  assumes "tracker_inv isz st0" "convert_lines isz ign st0 ls = Inr (st, out)"
  shows "tracker_inv isz st"
  using assms
proof (induction ls arbitrary: st0 out)
  case Nil
  then show ?case by simp
next
  case (Cons raw ls)
  from Cons.prems(2) obtain st1 a b out1 where
    s: "line_step isz ign st0 raw = Inr (st1, a, b)" and
    r: "convert_lines isz ign st1 ls = Inr (st, out1)"
    by (auto simp: process_line_def split: sum.splits prod.splits)
  from line_step_inv [OF Cons.prems(1) s] have "tracker_inv isz st1" .
  from Cons.IH [OF this r] show ?case .
qed

lemma reachable_inv:
  "convert_lines isz ign init_state ls = Inr (st, out) \<Longrightarrow> tracker_inv isz st"
  using convert_lines_inv [OF init_inv] by blast

lemma item_indent_set:
  "item_indent isz envs indent = (indent \<in> set (item_entries isz envs))"
  by (auto simp: item_indent_def item_entries_def list_ex_iff)

section \<open>Splitting at a two-character delimiter\<close>

lemma split_pair_hit:
  "split_chunks [x, x] cur (x # x # cs) = cur # split_chunks [x, x] [] cs"
  by simp

lemma split_pair_miss:
  "\<not> (c = x \<and> d = x) \<Longrightarrow>
     split_chunks [x, x] cur (c # d # cs) = split_chunks [x, x] (cur @ [c]) (d # cs)"
  by auto

lemma split_pair_one: "split_chunks [x, x] cur [c] = [cur @ [c]]"
  by simp

lemma split_chunks_nonempty: "split_chunks sep cur tx \<noteq> []"
  by (induction sep cur tx rule: split_chunks.induct) auto

lemma has_sub_pair_append:
  "has_sub (a @ b) [x, x] =
     (has_sub a [x, x] \<or> has_sub b [x, x] \<or> (a \<noteq> [] \<and> b \<noteq> [] \<and> last a = x \<and> hd b = x))"
proof (induction a)
  case Nil
  show ?case by simp
next
  case (Cons c a)
  show ?case
  proof (cases a)
    case Nil
    then show ?thesis by (cases b) auto
  next
    case (Cons d a')
    with Cons.IH show ?thesis by auto
  qed
qed

lemma has_sub_pair_single: "\<not> has_sub [c] [x, x]"
  by simp

lemma chunks_free:
  assumes "\<not> has_sub (cur @ take 1 tx) [x, x]"
  shows "\<forall>c \<in> set (split_chunks [x, x] cur tx). \<not> has_sub c [x, x]"
  using assms
proof (induction "length tx" arbitrary: tx cur rule: less_induct)
  case less
  show ?case
  proof (cases tx)
    case Nil
    with less.prems show ?thesis by simp
  next
    case (Cons c cs)
    note tc = Cons
    show ?thesis
    proof (cases cs)
      case Nil
      with tc less.prems show ?thesis by simp
    next
      case (Cons d cs')
      show ?thesis
      proof (cases "c = x \<and> d = x")
        case True
        from less.prems have f: "\<not> has_sub cur [x, x]"
          by (simp add: has_sub_pair_append)
        have "\<not> has_sub ([] @ take 1 cs') [x, x]" by (cases cs') simp_all
        then have "\<forall>c \<in> set (split_chunks [x, x] [] cs'). \<not> has_sub c [x, x]"
          by (intro less.hyps) (simp_all add: tc Cons)
        with f True tc Cons show ?thesis by simp
      next
        case False
        have "\<not> has_sub ((cur @ [c]) @ take 1 (d # cs')) [x, x]"
          using less.prems False tc Cons
          by (auto simp: has_sub_pair_append)
        then have "\<forall>c \<in> set (split_chunks [x, x] (cur @ [c]) (d # cs')). \<not> has_sub c [x, x]"
          by (intro less.hyps) (simp_all add: tc Cons)
        with False tc Cons show ?thesis
          by (simp add: split_pair_miss del: split_chunks.simps)
      qed
    qed
  qed
qed

lemma split_join:
  "str_join [x, x] (split_chunks [x, x] cur tx) = cur @ tx"
proof (induction "length tx" arbitrary: tx cur rule: less_induct)
  case less
  show ?case
  proof (cases tx)
    case Nil
    then show ?thesis by simp
  next
    case (Cons c cs)
    note tc = Cons
    show ?thesis
    proof (cases cs)
      case Nil
      with tc show ?thesis by simp
    next
      case (Cons d cs')
      show ?thesis
      proof (cases "c = x \<and> d = x")
        case True
        have "str_join [x, x] (split_chunks [x, x] [] cs') = [] @ cs'"
          by (rule less.hyps) (simp add: tc Cons)
        moreover obtain h t where "split_chunks [x, x] [] cs' = h # t"
          using split_chunks_nonempty by (cases "split_chunks [x, x] [] cs'") auto
        ultimately show ?thesis using True tc Cons by simp
      next
        case False
        have "str_join [x, x] (split_chunks [x, x] (cur @ [c]) (d # cs')) = (cur @ [c]) @ d # cs'"
          by (rule less.hyps) (simp add: tc Cons)
        with False tc Cons show ?thesis
          by (simp add: split_pair_miss del: split_chunks.simps)
      qed
    qed
  qed
qed

lemma split_length:
  "length (split_chunks [x, x] cur tx) = Suc (str_count tx [x, x])"
proof (induction "length tx" arbitrary: tx cur rule: less_induct)
  case less
  show ?case
  proof (cases tx)
    case Nil
    then show ?thesis by simp
  next
    case (Cons c cs)
    note tc = Cons
    show ?thesis
    proof (cases cs)
      case Nil
      with tc show ?thesis by simp
    next
      case (Cons d cs')
      show ?thesis
      proof (cases "c = x \<and> d = x")
        case True
        have "length (split_chunks [x, x] [] cs') = Suc (str_count cs' [x, x])"
          by (rule less.hyps) (simp add: tc Cons)
        with True tc Cons show ?thesis by simp
      next
        case False
        have "length (split_chunks [x, x] (cur @ [c]) (d # cs')) = Suc (str_count (d # cs') [x, x])"
          by (rule less.hyps) (simp add: tc Cons)
        with False tc Cons show ?thesis
          by (simp add: split_pair_miss del: split_chunks.simps) auto
      qed
    qed
  qed
qed

lemma wrap_odd_short: "length chunks \<le> 1 \<Longrightarrow> wrap_odd fn chunks = chunks"
  by (induction fn chunks rule: wrap_odd.induct) auto

lemma markup_loop_wrap:
  "0 < i \<Longrightarrow> markup_loop fn i chunks = take (i - 1) chunks @ wrap_odd fn (drop (i - 1) chunks)"
proof (induction fn i chunks rule: markup_loop.induct)
  case (1 fn i chunks)
  show ?case
  proof (cases "i < length chunks")
    case True
    obtain j where j: "i = Suc j" using "1.prems" by (cases i) auto
    let ?c = "chunks[i := fn (chunks ! i)]"
    have d: "drop j chunks = chunks ! j # chunks ! i # drop (Suc i) chunks"
      using True j by (metis Cons_nth_drop_Suc Suc_lessD)
    have "markup_loop fn i chunks = markup_loop fn (i + 2) ?c"
      using True by (subst markup_loop.simps) simp
    also have "markup_loop fn (i + 2) ?c = take (i + 2 - 1) ?c @ wrap_odd fn (drop (i + 2 - 1) ?c)"
      using "1.IH" [OF True] by simp
    also have "take (i + 2 - 1) ?c = take j chunks @ [chunks ! j, fn (chunks ! i)]"
      using True j by (simp add: take_Suc_conv_app_nth nth_list_update)
    also have "drop (i + 2 - 1) ?c = drop (Suc i) chunks"
      by simp
    finally show ?thesis
      using j d by simp
  next
    case False
    then have "length (drop (i - 1) chunks) \<le> 1" by simp
    then have "wrap_odd fn (drop (i - 1) chunks) = drop (i - 1) chunks"
      by (rule wrap_odd_short)
    with False show ?thesis by (simp add: markup_loop.simps [of fn i chunks])
  qed
qed

lemma replace_markup_via_wrap:
  "replace_markup_via tx [x, x] fn = Inr (concat (wrap_odd fn (split_chunks [x, x] [] tx)))"
  by (simp add: replace_markup_via_def str_split_def markup_loop_wrap)

lemma absent_char_free: "x \<notin> set s \<Longrightarrow> \<not> has_sub s [x, x]"
  by (induction s) auto

lemma wrap_odd_length [simp]: "length (wrap_odd fn chunks) = length chunks"
  by (induction fn chunks rule: wrap_odd.induct) auto

lemma wrap_odd_nil [simp]: "(wrap_odd fn chunks = []) = (chunks = [])"
  by (induction fn chunks rule: wrap_odd.induct) auto

lemma wrapped_free:
  assumes "\<forall>c \<in> set chunks. \<not> has_sub c [x, x]"
      and "\<forall>t. fn t = pre @ t @ post"
      and "pre \<noteq> []" "post \<noteq> []" "x \<notin> set pre" "x \<notin> set post"
  shows "\<not> has_sub (concat (wrap_odd fn chunks)) [x, x]"
  using assms(1)
proof (induction chunks rule: induct_list012)
  case 1
  show ?case by simp
next
  case (2 c)
  then show ?case by simp
next
  case (3 c0 c1 chunks)
  have hp: "hd pre \<noteq> x" "last post \<noteq> x" "last pre \<noteq> x" "hd post \<noteq> x"
    using assms(3-6) by (auto simp: hd_in_set last_in_set)
  have fp: "\<not> has_sub pre [x, x]" "\<not> has_sub post [x, x]"
    using assms(5,6) by (simp_all add: absent_char_free)
  from 3 have r: "\<not> has_sub (concat (wrap_odd fn chunks)) [x, x]"
    and c: "\<not> has_sub c0 [x, x]" "\<not> has_sub c1 [x, x]" by simp_all
  have "\<not> has_sub (post @ concat (wrap_odd fn chunks)) [x, x]"
    using r fp hp assms(4) by (simp add: has_sub_pair_append)
  then have "\<not> has_sub (c1 @ post @ concat (wrap_odd fn chunks)) [x, x]"
    using c hp assms(4) by (simp add: has_sub_pair_append)
  then have "\<not> has_sub (pre @ c1 @ post @ concat (wrap_odd fn chunks)) [x, x]"
    using fp hp assms(3) by (simp add: has_sub_pair_append)
  then have "\<not> has_sub (c0 @ pre @ c1 @ post @ concat (wrap_odd fn chunks)) [x, x]"
    using c hp assms(3) by (simp add: has_sub_pair_append)
  moreover have "fn c1 = pre @ c1 @ post" using assms(2) by blast
  ultimately show ?case by (simp del: has_sub.simps)
qed

lemma split_append_delim:
  assumes "last (split_chunks [x, x] cur tx) = [] \<or> last (last (split_chunks [x, x] cur tx)) \<noteq> x"
  shows "split_chunks [x, x] cur (tx @ [x, x]) = split_chunks [x, x] cur tx @ [[]]"
  using assms
proof (induction "length tx" arbitrary: tx cur rule: less_induct)
  case less
  show ?case
  proof (cases tx)
    case Nil
    then show ?thesis by simp
  next
    case (Cons c cs)
    note tc = Cons
    show ?thesis
    proof (cases cs)
      case Nil
      with tc less.prems show ?thesis by auto
    next
      case (Cons d cs')
      show ?thesis
      proof (cases "c = x \<and> d = x")
        case True
        have "last (split_chunks [x, x] cur tx) = last (split_chunks [x, x] [] cs')"
          using True tc Cons split_chunks_nonempty by simp
        with less.prems have
          "last (split_chunks [x, x] [] cs') = [] \<or> last (last (split_chunks [x, x] [] cs')) \<noteq> x"
          by simp
        then have "split_chunks [x, x] [] (cs' @ [x, x]) = split_chunks [x, x] [] cs' @ [[]]"
          by (intro less.hyps) (simp_all add: tc Cons)
        with True tc Cons show ?thesis by simp
      next
        case False
        have e: "split_chunks [x, x] cur tx = split_chunks [x, x] (cur @ [c]) (d # cs')"
          using False tc Cons by (simp add: split_pair_miss del: split_chunks.simps)
        with less.prems have
          "last (split_chunks [x, x] (cur @ [c]) (d # cs')) = [] \<or>
           last (last (split_chunks [x, x] (cur @ [c]) (d # cs'))) \<noteq> x"
          by simp
        then have "split_chunks [x, x] (cur @ [c]) ((d # cs') @ [x, x])
                     = split_chunks [x, x] (cur @ [c]) (d # cs') @ [[]]"
          by (intro less.hyps) (simp_all add: tc Cons)
        moreover have "split_chunks [x, x] cur (tx @ [x, x])
                     = split_chunks [x, x] (cur @ [c]) ((d # cs') @ [x, x])"
          using False tc Cons by (simp add: split_pair_miss del: split_chunks.simps)
        ultimately show ?thesis using e by simp
      qed
    qed
  qed
qed

lemma wrap_odd_even_append:
  "even (length chunks) \<Longrightarrow> wrap_odd fn (chunks @ more_chunks) = wrap_odd fn chunks @ wrap_odd fn more_chunks"
  by (induction fn chunks rule: wrap_odd.induct) auto

lemma wrap_odd_even_last:
  "even (length chunks) \<Longrightarrow> chunks \<noteq> [] \<Longrightarrow> last (wrap_odd fn chunks) = fn (last chunks)"
  by (induction fn chunks rule: wrap_odd.induct) auto

lemma wrap_odd_odd_last:
  "odd (length chunks) \<Longrightarrow> last (wrap_odd fn chunks) = last chunks"
  by (induction fn chunks rule: wrap_odd.induct) auto

lemma str_count_pair_hit: "str_count (x # x # cs) [x, x] = Suc (str_count cs [x, x])"
  by simp

lemma str_count_pair_miss:
  "\<not> (c = x \<and> d = x) \<Longrightarrow> str_count (c # d # cs) [x, x] = str_count (d # cs) [x, x]"
  by auto

lemma str_count_append_left:
  assumes "b = [] \<or> hd b \<noteq> x"
  shows "str_count (a @ b) [x, x] = str_count a [x, x] + str_count b [x, x]"
  using assms
proof (induction a rule: induct_list012)
  case 1
  show ?case by simp
next
  case (2 c)
  then show ?case by (cases b) auto
next
  case (3 c d a)
  show ?case
  proof (cases "c = x \<and> d = x")
    case True
    with 3 show ?thesis by simp
  next
    case False
    have "str_count ((c # d # a) @ b) [x, x] = str_count ((d # a) @ b) [x, x]"
      using False str_count_pair_miss [of c x d "a @ b"] by simp
    also have "\<dots> = str_count (d # a) [x, x] + str_count b [x, x]"
      using 3 by blast
    also have "str_count (d # a) [x, x] = str_count (c # d # a) [x, x]"
      using False str_count_pair_miss [of c x d a] by simp
    finally show ?thesis .
  qed
qed

lemma str_count_absent: "x \<notin> set s \<Longrightarrow> str_count s [x, x] = 0"
  by (induction s) auto

lemma str_count_absent_prefix:
  assumes "x \<notin> set s"
  shows "str_count (s @ b) [x, x] = str_count b [x, x]"
  using assms
proof (induction s)
  case Nil
  show ?case by simp
next
  case (Cons c s)
  then show ?case by (cases "s @ b") auto
qed

lemma str_count_separated:
  assumes "x \<notin> set s" "s \<noteq> []"
  shows "str_count (a @ s @ b) [x, x] = str_count a [x, x] + str_count b [x, x]"
proof -
  have "hd (s @ b) \<noteq> x" using assms by (cases s) auto
  then have "str_count (a @ s @ b) [x, x] = str_count a [x, x] + str_count (s @ b) [x, x]"
    by (intro str_count_append_left) simp
  with assms(1) show ?thesis by (simp add: str_count_absent_prefix)
qed

lemma str_count_join:
  assumes "x \<noteq> y"
  shows "str_count (str_join [y, y] chunks) [x, x] = sum_list (map (\<lambda>c. str_count c [x, x]) chunks)"
proof (induction chunks rule: induct_list012)
  case 1
  show ?case by simp
next
  case (2 c)
  show ?case by simp
next
  case (3 c d chunks)
  have "str_count (c @ [y, y] @ str_join [y, y] (d # chunks)) [x, x]
          = str_count c [x, x] + str_count (str_join [y, y] (d # chunks)) [x, x]"
    using assms by (intro str_count_separated) auto
  with 3 show ?case by simp
qed

lemma str_count_wrapped:
  assumes "\<forall>t. fn t = pre @ t @ post" "pre \<noteq> []" "post \<noteq> []" "x \<notin> set pre" "x \<notin> set post"
  shows "str_count (concat (wrap_odd fn chunks)) [x, x] = sum_list (map (\<lambda>c. str_count c [x, x]) chunks)"
proof (induction chunks rule: induct_list012)
  case 1
  show ?case by simp
next
  case (2 c)
  show ?case by simp
next
  case (3 c0 c1 chunks)
  let ?r = "concat (wrap_odd fn chunks)"
  have f: "fn c1 = pre @ c1 @ post" using assms(1) by blast
  have "str_count (c0 @ pre @ c1 @ post @ ?r) [x, x]
          = str_count c0 [x, x] + str_count (c1 @ post @ ?r) [x, x]"
    using assms by (intro str_count_separated) auto
  also have "str_count (c1 @ post @ ?r) [x, x] = str_count c1 [x, x] + str_count ?r [x, x]"
    using assms by (intro str_count_separated) auto
  finally show ?case using 3 f by (simp del: str_count.simps)
qed

lemma pass_shape:
  assumes "(delims, fn) \<in> set markup_passes"
  shows "\<exists>x pre post. delims = [x, x] \<and> x \<in> delim_chars \<and> (\<forall>t. fn t = pre @ t @ post) \<and>
           pre \<noteq> [] \<and> post \<noteq> [] \<and> set pre \<inter> delim_chars = {} \<and> set post \<inter> delim_chars = {}"
proof -
  from assms consider "delims = ''__'' \<and> fn = emph" | "delims = ''**'' \<and> fn = textbf"
    | "delims = ''^^'' \<and> fn = hl"
    by (auto simp: markup_passes_def)
  then show ?thesis
  proof cases
    case 1
    show ?thesis
      by (rule exI [of _ "CHR ''_''"], rule exI [of _ "BSL # ''emph{''"], rule exI [of _ "''}''"])
         (simp add: 1 emph_def delim_chars_def)
  next
    case 2
    show ?thesis
      by (rule exI [of _ "CHR ''*''"], rule exI [of _ "BSL # ''textbf{''"], rule exI [of _ "''}''"])
         (simp add: 2 textbf_def delim_chars_def)
  next
    case 3
    show ?thesis
      by (rule exI [of _ "CHR ''^''"], rule exI [of _ "BSL # ''hl{''"], rule exI [of _ "''}''"])
         (simp add: 3 hl_def delim_chars_def)
  qed
qed

lemma pass_keeps_other_counts:
  assumes "(delims, fn) \<in> set markup_passes" "(other, fn') \<in> set markup_passes"
      and "other \<noteq> delims"
  shows "str_count (concat (wrap_odd fn (split_chunks delims [] tx))) other = str_count tx other"
proof -
  from pass_shape [OF assms(1)] obtain y pre post where
    d: "delims = [y, y]" and f: "\<forall>t. fn t = pre @ t @ post" and
    p: "pre \<noteq> []" "post \<noteq> []" "set pre \<inter> delim_chars = {}" "set post \<inter> delim_chars = {}"
    by blast
  from pass_shape [OF assms(2)] obtain x where
    o: "other = [x, x]" and x: "x \<in> delim_chars" by blast
  from x p have n: "x \<notin> set pre" "x \<notin> set post" by auto
  from assms(3) d o have xy: "x \<noteq> y" by simp
  let ?chunks = "split_chunks [y, y] [] tx"
  have "str_count (concat (wrap_odd fn ?chunks)) [x, x]
          = sum_list (map (\<lambda>c. str_count c [x, x]) ?chunks)"
    using f p(1,2) n by (rule str_count_wrapped)
  also have "\<dots> = str_count (str_join [y, y] ?chunks) [x, x]"
    using xy by (simp add: str_count_join)
  also have "str_join [y, y] ?chunks = tx" by (simp add: split_join)
  finally show ?thesis using d o by simp
qed

lemma takeWhile_all_append:
  "\<forall>c \<in> set xs. P c \<Longrightarrow> takeWhile P (xs @ ys) = xs @ takeWhile P ys"
  by (induction xs) auto

lemma dropWhile_all_append:
  "\<forall>c \<in> set xs. P c \<Longrightarrow> dropWhile P (xs @ ys) = dropWhile P ys"
  by (induction xs) auto

lemma latex_eq_match:
  assumes "CHR ''$'' \<notin> set content" "tail = [] \<or> tail = [NL]"
  shows "latex_eq (''$$'' @ content @ ''$$'' @ tail) = Some content"
proof -
  have a: "\<forall>c \<in> set content. c \<noteq> CHR ''$''" using assms(1) by auto
  have "takeWhile (\<lambda>c. c \<noteq> CHR ''$'') (content @ ''$$'' @ tail) = content"
    using takeWhile_all_append [OF a, of "''$$'' @ tail"] by simp
  moreover have "dropWhile (\<lambda>c. c \<noteq> CHR ''$'') (content @ ''$$'' @ tail) = ''$$'' @ tail"
    using dropWhile_all_append [OF a, of "''$$'' @ tail"] by simp
  ultimately show ?thesis using assms(2) by (auto simp: latex_eq_def Let_def)
qed

section \<open>The markup passes on a line\<close>

lemma inline_markup_passes:
  "inline_markup line =
     (case apply_passes markup_passes line of
        Inl e \<Rightarrow> Inl e
      | Inr l \<Rightarrow> Inr (sub_inline_links (sub_roam_links (str_replace ''$$'' ''$'' l))))"
  by (simp add: inline_markup_def markup_passes_def split: sum.splits)

lemma apply_passes_append:
  "apply_passes (ps @ qs) line =
     (case apply_passes ps line of Inl e \<Rightarrow> Inl e | Inr l \<Rightarrow> apply_passes qs l)"
  by (induction ps arbitrary: line) (auto split: sum.splits)

lemma str_count_zero: "(str_count tx [x, x] = 0) = (\<not> has_sub tx [x, x])"
  by (induction tx rule: induct_list012) auto

lemma other_passes_keep:
  assumes "set ps \<subseteq> set markup_passes" "delims \<notin> fst ` set ps"
      and "(delims, fn) \<in> set markup_passes"
  shows "\<exists>l. apply_passes ps tx = Inr l \<and> str_count l delims = str_count tx delims"
  using assms(1,2)
proof (induction ps arbitrary: tx)
  case Nil
  show ?case by simp
next
  case (Cons p ps)
  obtain d f where p: "p = (d, f)" by (cases p)
  from Cons.prems p have m: "(d, f) \<in> set markup_passes" and ne: "delims \<noteq> d" by auto
  from pass_shape [OF m] obtain y where d: "d = [y, y]" by blast
  let ?l = "concat (wrap_odd f (split_chunks d [] tx))"
  have r: "replace_markup_via tx d f = Inr ?l"
    unfolding d by (rule replace_markup_via_wrap)
  have c: "str_count ?l delims = str_count tx delims"
    using pass_keeps_other_counts [OF m assms(3)] ne by blast
  from Cons.IH [of ?l] Cons.prems obtain l where
    "apply_passes ps ?l = Inr l" "str_count l delims = str_count ?l delims" by auto
  with r c p show ?case by simp
qed

lemma passes_decomposed:
  assumes "markup_passes = before @ (delims, fn) # after"
  shows "set before \<subseteq> set markup_passes \<and> set after \<subseteq> set markup_passes \<and>
         (delims, fn) \<in> set markup_passes \<and>
         delims \<notin> fst ` set before \<and> delims \<notin> fst ` set after"
proof -
  have "distinct (map fst markup_passes)" by (simp add: markup_passes_def)
  then have "distinct (map fst (before @ (delims, fn) # after))" by (simp only: assms)
  then have "delims \<notin> fst ` set before \<and> delims \<notin> fst ` set after" by auto
  moreover have "set before \<subseteq> set markup_passes" "set after \<subseteq> set markup_passes"
    "(delims, fn) \<in> set markup_passes"
    unfolding assms by auto
  ultimately show ?thesis by blast
qed

lemma pass_chunks:
  assumes "(delims, fn) \<in> set markup_passes"
  shows "\<exists>chunks. str_split tx delims = Inr chunks \<and>
           str_join delims chunks = tx \<and>
           length chunks = Suc (str_count tx delims) \<and>
           list_all (\<lambda>c. \<not> has_sub c delims) chunks \<and>
           replace_markup_via tx delims fn = Inr (concat (wrap_odd fn chunks)) \<and>
           (even (str_count tx delims) \<longrightarrow> last (wrap_odd fn chunks) = last chunks) \<and>
           (odd (str_count tx delims) \<longrightarrow> last (wrap_odd fn chunks) = fn (last chunks)) \<and>
           \<not> has_sub (concat (wrap_odd fn chunks)) delims \<and>
           ((last chunks = [] \<or> last (last chunks) \<noteq> hd delims) \<and> odd (str_count tx delims) \<longrightarrow>
              replace_markup_via (tx @ delims) delims fn = replace_markup_via tx delims fn)"
proof -
  from pass_shape [OF assms] obtain x pre post where
    d: "delims = [x, x]" and f: "\<forall>t. fn t = pre @ t @ post" and
    p: "pre \<noteq> []" "post \<noteq> []" and
    q: "x \<in> delim_chars" "set pre \<inter> delim_chars = {}" "set post \<inter> delim_chars = {}"
    by blast
  from q have n: "x \<notin> set pre" "x \<notin> set post" by auto
  let ?chunks = "split_chunks [x, x] [] tx"
  have fr: "\<forall>c \<in> set ?chunks. \<not> has_sub c [x, x]"
    by (rule chunks_free) (cases tx, simp_all)
  have len: "length ?chunks = Suc (str_count tx [x, x])" by (rule split_length)
  have ne: "?chunks \<noteq> []" by (rule split_chunks_nonempty)
  have e: "even (str_count tx [x, x]) \<longrightarrow> last (wrap_odd fn ?chunks) = last ?chunks"
    using len by (simp add: wrap_odd_odd_last)
  have o: "odd (str_count tx [x, x]) \<longrightarrow> last (wrap_odd fn ?chunks) = fn (last ?chunks)"
    using len ne by (simp add: wrap_odd_even_last)
  have nf: "\<not> has_sub (concat (wrap_odd fn ?chunks)) [x, x]"
    using fr f p n by (rule wrapped_free)
  have j: "str_join [x, x] ?chunks = tx" by (simp add: split_join)
  have a: "replace_markup_via (tx @ [x, x]) [x, x] fn = replace_markup_via tx [x, x] fn"
    if pr: "last ?chunks = [] \<or> last (last ?chunks) \<noteq> x" and od: "odd (str_count tx [x, x])"
  proof -
    from od len have ev: "even (length ?chunks)" by simp
    from pr have "split_chunks [x, x] [] (tx @ [x, x]) = ?chunks @ [[]]"
      by (rule split_append_delim)
    then have "replace_markup_via (tx @ [x, x]) [x, x] fn
                 = Inr (concat (wrap_odd fn (?chunks @ [[]])))"
      by (simp add: replace_markup_via_wrap)
    also have "wrap_odd fn (?chunks @ [[]]) = wrap_odd fn ?chunks @ [[]]"
      using ev by (simp add: wrap_odd_even_append)
    finally show ?thesis by (simp add: replace_markup_via_wrap)
  qed
  show ?thesis
    unfolding d
    by (rule exI [of _ ?chunks])
       (use fr len e o nf j a in \<open>simp add: str_split_def list_all_iff replace_markup_via_wrap\<close>)
qed

lemma pass_on_line:
  assumes "markup_passes = before @ (delims, fn) # after"
  shows "\<exists>tx l3. apply_passes before line = Inr tx \<and>
           str_count tx delims = str_count line delims \<and>
           apply_passes after (concat (wrap_odd fn (split_chunks delims [] tx))) = Inr l3 \<and>
           \<not> has_sub l3 delims \<and>
           inline_markup line
             = Inr (sub_inline_links (sub_roam_links (str_replace ''$$'' ''$'' l3)))"
proof -
  note dc = passes_decomposed [OF assms]
  from dc have m: "(delims, fn) \<in> set markup_passes" by blast
  from pass_shape [OF m] obtain x where d: "delims = [x, x]" by blast
  from other_passes_keep [of before delims fn line] dc obtain tx where
    b: "apply_passes before line = Inr tx" "str_count tx delims = str_count line delims"
    by blast
  let ?l2 = "concat (wrap_odd fn (split_chunks delims [] tx))"
  from pass_chunks [OF m, of tx] have
    r: "replace_markup_via tx delims fn = Inr ?l2" and nf: "\<not> has_sub ?l2 delims"
    by (auto simp: str_split_def d)
  from other_passes_keep [of after delims fn ?l2] dc obtain l3 where
    a: "apply_passes after ?l2 = Inr l3" "str_count l3 delims = str_count ?l2 delims"
    by blast
  from nf a(2) have nf3: "\<not> has_sub l3 delims"
    unfolding d by (simp add: str_count_zero [symmetric])
  have "apply_passes markup_passes line = Inr l3"
    unfolding assms using b(1) r a(1) by (simp add: apply_passes_append)
  then have "inline_markup line
             = Inr (sub_inline_links (sub_roam_links (str_replace ''$$'' ''$'' l3)))"
    by (simp add: inline_markup_passes)
  with b a(1) nf3 show ?thesis by blast
qed

lemma step_renders_inline:
  assumes "convert_lines isz ign init_state ls = Inr (st, out)"
      and "\<not> startswith (clean_line ign raw) ''#''"
      and "latex_eq (clean_line ign raw) = None"
      and "inline_markup (clean_line ign raw) = Inr r"
  shows "\<exists>st' add_text body. line_step isz ign st raw = Inr (st', add_text, body) \<and>
           (body = r \<or> body = item_marker @ r)"
proof -
  have inv: "tracker_inv isz st" using reachable_inv [OF assms(1)] .
  from line_step_shape [OF inv assms(2)] obtain enums' l where
    l: "inline_markup (clean_line ign raw) = Inr l" and
    st: "line_step isz ign st raw =
       Inr (\<lparr>section_indent = section_indent st,
             par_indent = Some (if leading_indent raw \<le> (case par_indent st of None \<Rightarrow> leading_indent raw | Some p \<Rightarrow> p)
                                then leading_indent raw
                                else (case par_indent st of None \<Rightarrow> leading_indent raw | Some p \<Rightarrow> p)),
             environments = kept_frames (leading_indent raw) (environments st)
                              @ opened_frame (leading_indent raw) (clean_line ign raw),
             enum_indents = enums'\<rparr>,
            concat (map (\<lambda>(ind, env). end_text env)
                      (rev (closed_frames (leading_indent raw) (environments st))))
              @ (if leading_indent raw \<le> (case par_indent st of None \<Rightarrow> leading_indent raw | Some p \<Rightarrow> p)
                 then [NL] else []),
            (case latex_eq (clean_line ign raw) of
               Some content \<Rightarrow> equation_block content
             | None \<Rightarrow> if leading_indent raw \<in> set enums' then item_marker @ l else l))"
    by blast
  from l assms(4) have lr: "l = r" by simp
  have b: "(case latex_eq (clean_line ign raw) of
               Some content \<Rightarrow> equation_block content
             | None \<Rightarrow> if leading_indent raw \<in> set enums' then item_marker @ l else l) = r \<or>
           (case latex_eq (clean_line ign raw) of
               Some content \<Rightarrow> equation_block content
             | None \<Rightarrow> if leading_indent raw \<in> set enums' then item_marker @ l else l)
             = item_marker @ r"
    unfolding assms(3) lr by simp
  show ?thesis
    by (rule exI, rule exI, rule exI, rule conjI, rule st, rule b)
qed

lemma pass_in_step:
  assumes "convert_lines isz ign init_state ls = Inr (st, out)"
      and "\<not> startswith (clean_line ign raw) ''#''"
      and "latex_eq (clean_line ign raw) = None"
      and "markup_passes = before @ (delims, fn) # after"
  shows "\<exists>tx chunks l3 st' add_text body.
           apply_passes before (clean_line ign raw) = Inr tx \<and>
           str_count tx delims = str_count (clean_line ign raw) delims \<and>
           apply_passes after (concat (wrap_odd fn chunks)) = Inr l3 \<and>
           \<not> has_sub l3 delims \<and>
           line_step isz ign st raw = Inr (st', add_text, body) \<and>
           (body = link_passes l3 \<or> body = item_marker @ link_passes l3) \<and>
           str_split tx delims = Inr chunks \<and>
           str_join delims chunks = tx \<and>
           length chunks = Suc (str_count tx delims) \<and>
           list_all (\<lambda>c. \<not> has_sub c delims) chunks \<and>
           replace_markup_via tx delims fn = Inr (concat (wrap_odd fn chunks)) \<and>
           (even (str_count tx delims) \<longrightarrow> last (wrap_odd fn chunks) = last chunks) \<and>
           (odd (str_count tx delims) \<longrightarrow> last (wrap_odd fn chunks) = fn (last chunks)) \<and>
           \<not> has_sub (concat (wrap_odd fn chunks)) delims \<and>
           ((last chunks = [] \<or> last (last chunks) \<noteq> hd delims) \<and> odd (str_count tx delims) \<longrightarrow>
              replace_markup_via (tx @ delims) delims fn = replace_markup_via tx delims fn)"
proof -
  let ?line = "clean_line ign raw"
  have m: "(delims, fn) \<in> set markup_passes" using passes_decomposed [OF assms(4)] by blast
  from pass_on_line [OF assms(4), of ?line] obtain tx l3 where
    b: "apply_passes before ?line = Inr tx" and
    c: "str_count tx delims = str_count ?line delims" and
    a: "apply_passes after (concat (wrap_odd fn (split_chunks delims [] tx))) = Inr l3" and
    nf: "\<not> has_sub l3 delims" and
    i: "inline_markup ?line = Inr (link_passes l3)"
    unfolding link_passes_def by blast
  from pass_chunks [OF m, of tx] obtain chunks where
    pc: "str_split tx delims = Inr chunks \<and>
           str_join delims chunks = tx \<and>
           length chunks = Suc (str_count tx delims) \<and>
           list_all (\<lambda>c. \<not> has_sub c delims) chunks \<and>
           replace_markup_via tx delims fn = Inr (concat (wrap_odd fn chunks)) \<and>
           (even (str_count tx delims) \<longrightarrow> last (wrap_odd fn chunks) = last chunks) \<and>
           (odd (str_count tx delims) \<longrightarrow> last (wrap_odd fn chunks) = fn (last chunks)) \<and>
           \<not> has_sub (concat (wrap_odd fn chunks)) delims \<and>
           ((last chunks = [] \<or> last (last chunks) \<noteq> hd delims) \<and> odd (str_count tx delims) \<longrightarrow>
              replace_markup_via (tx @ delims) delims fn = replace_markup_via tx delims fn)"
    ..
  from pc have s: "str_split tx delims = Inr chunks" by (rule conjunct1)
  from pass_shape [OF m] obtain x where d: "delims = [x, x]" by blast
  from s have "chunks = split_chunks delims [] tx"
    unfolding d by (simp add: str_split_def)
  with a have a': "apply_passes after (concat (wrap_odd fn chunks)) = Inr l3" by (simp only:)
  from step_renders_inline [OF assms(1-3) i] obtain st' add_text body where
    st: "line_step isz ign st raw = Inr (st', add_text, body)" and
    bd: "body = link_passes l3 \<or> body = item_marker @ link_passes l3"
    by blast
  show ?thesis
    apply (rule exI [of _ tx], rule exI [of _ chunks], rule exI [of _ l3], rule exI [of _ st'],
        rule exI [of _ add_text], rule exI [of _ body])
    apply (rule conjI, rule b)
    apply (rule conjI, rule c)
    apply (rule conjI, rule a')
    apply (rule conjI, rule nf)
    apply (rule conjI, rule st)
    apply (rule conjI, rule bd)
    apply (rule pc)
    done
qed

section \<open>The claims\<close>

text \<open>
  C1. The document of scenario 1, a heading line followed by a content line, is not
  converted at all: the heading line sets \<^verbatim>\<open>par_indent\<close> to \<^verbatim>\<open>None\<close> and the comparison
  \<^verbatim>\<open>indent <= par_indent\<close> that follows raises \<^verbatim>\<open>TypeError\<close>, so neither the
  section command nor the content line is ever written.
\<close>

theorem heading_document_raises:
  "convert_to_tex (''# Title'' @ [NL] @ ''some text'' @ [NL]) preamble 4 default_ignore
     = Inl TypeError"
  by (simp add: convert_to_tex_def step_defs clean_defs)

text \<open>
  C2. The per-line transformation does not run to completion on every line: in every
  state, for every indent size and every list of ignored properties, a line whose cleaned
  text starts with a hash mark ends the iteration with an exception.
\<close>

theorem heading_line_raises:
  assumes "startswith (clean_line ignore_properties raw) ''#''"
  shows "\<exists>e. process_line indent_size ignore_properties st raw = Inl e"
  using assms
  by (simp add: process_line_def line_step_def Let_def split: sum.splits prod.splits)

theorem heading_line_raises_witness:
  "startswith (clean_line default_ignore (''## Heading'' @ [NL])) ''#'' \<and>
   (\<exists>e. process_line 4 default_ignore init_state (''## Heading'' @ [NL]) = Inl e)"
proof -
  have h: "startswith (clean_line default_ignore (''## Heading'' @ [NL])) ''#''"
    by (simp add: clean_defs)
  show ?thesis using h heading_line_raises [OF h] by simp
qed

text \<open>
  C3. A double-bracket link whose text has the shape of a citation key is replaced by the
  fixed text \<^verbatim>\<open>\cite{link_text}\<close>, whatever the key is; a link of any other shape is
  replaced by its inner text.
\<close>

theorem citation_key_not_interpolated:
  "inline_markup ''[[Smith99]]'' = Inr (BSL # ''cite{link_text}'') \<and>
   inline_markup ''[[some phrase]]'' = Inr ''some phrase''"
  by (simp add: render_defs)

text \<open>
  C4, as the code has it. The first content line of a document, which establishes the
  paragraph baseline, is itself written behind a paragraph break.
\<close>

theorem establishing_line_gets_break:
  "line_step 4 default_ignore init_state (''some text'' @ [NL])
     = Inr (\<lparr>section_indent = None, par_indent = Some 0, environments = [],
              enum_indents = []\<rparr>,
            [NL], ''some text'' @ [NL])"
  by (simp add: step_defs clean_defs render_defs)

text \<open>
  C4, amended. In every state the conversion reaches, a line that is not a heading is
  processed without an exception; its \<^verbatim>\<open>add_text\<close> is the closing commands followed by
  a paragraph break exactly when its indent is at most the baseline, where the baseline
  is the stored paragraph indent or, when none is stored, the line's own indent (so the
  establishing line always gets the break); the paragraph indent becomes the line's
  indent when the break is emitted and stays the baseline otherwise.
\<close>

theorem paragraph_break_at_or_below_baseline:
  assumes "convert_lines isz ign init_state ls = Inr (st, out)"
      and "\<not> startswith (clean_line ign raw) ''#''"
  shows "\<exists>st' body.
     line_step isz ign st raw =
       Inr (st',
            closing_text (closed_frames (leading_indent raw) (environments st))
              @ (if leading_indent raw \<le> baseline st (leading_indent raw) then [NL] else []),
            body) \<and>
     par_indent st' = Some (if leading_indent raw \<le> baseline st (leading_indent raw)
                            then leading_indent raw else baseline st (leading_indent raw))"
proof -
  from line_step_shape [OF reachable_inv [OF assms(1)] assms(2)]
  obtain st' a body where
    "line_step isz ign st raw = Inr (st', a, body)"
    "par_indent st' = Some (if leading_indent raw \<le> baseline st (leading_indent raw)
                            then leading_indent raw else baseline st (leading_indent raw))"
    "a = closing_text (closed_frames (leading_indent raw) (environments st))
              @ (if leading_indent raw \<le> baseline st (leading_indent raw) then [NL] else [])"
    unfolding baseline_def closing_text_def by fastforce
  then show ?thesis by auto
qed

theorem paragraph_break_at_or_below_baseline_witness:
  "convert_lines 4 default_ignore init_state [''intro'' @ [NL]]
     = Inr (\<lparr>section_indent = None, par_indent = Some 0, environments = [],
              enum_indents = []\<rparr>, [NL] @ ''intro'' @ [NL] @ [NL]) \<and>
   \<not> startswith (clean_line default_ignore (''    deeper'' @ [NL])) ''#'' \<and>
   leading_indent (''    deeper'' @ [NL]) = 4 \<and>
   baseline \<lparr>section_indent = None, par_indent = Some 0, environments = [],
              enum_indents = []\<rparr> 4 = 0 \<and>
   (\<exists>st' body.
      line_step 4 default_ignore
        \<lparr>section_indent = None, par_indent = Some 0, environments = [], enum_indents = []\<rparr>
        (''    deeper'' @ [NL])
      = Inr (st',
             closing_text (closed_frames (leading_indent (''    deeper'' @ [NL]))
               (environments \<lparr>section_indent = None, par_indent = Some 0, environments = [],
                               enum_indents = []\<rparr>))
               @ (if leading_indent (''    deeper'' @ [NL])
                       \<le> baseline \<lparr>section_indent = None, par_indent = Some 0,
                                     environments = [], enum_indents = []\<rparr>
                            (leading_indent (''    deeper'' @ [NL]))
                  then [NL] else []),
             body) \<and>
      par_indent st'
        = Some (if leading_indent (''    deeper'' @ [NL])
                     \<le> baseline \<lparr>section_indent = None, par_indent = Some 0,
                                   environments = [], enum_indents = []\<rparr>
                          (leading_indent (''    deeper'' @ [NL]))
                then leading_indent (''    deeper'' @ [NL])
                else baseline \<lparr>section_indent = None, par_indent = Some 0,
                                environments = [], enum_indents = []\<rparr>
                       (leading_indent (''    deeper'' @ [NL]))))"
proof -
  let ?st = "\<lparr>section_indent = None, par_indent = Some 0, environments = [],
               enum_indents = []\<rparr>"
  have h1: "convert_lines 4 default_ignore init_state [''intro'' @ [NL]]
     = Inr (?st, [NL] @ ''intro'' @ [NL] @ [NL])"
    by (simp add: step_defs clean_defs render_defs)
  have h2: "\<not> startswith (clean_line default_ignore (''    deeper'' @ [NL])) ''#''"
    by (simp add: clean_defs)
  have i: "leading_indent (''    deeper'' @ [NL]) = 4" by (simp add: leading_indent_def)
  have b: "baseline ?st 4 = 0" by (simp add: baseline_def)
  note c = paragraph_break_at_or_below_baseline [OF h1 h2]
  from h1 h2 i b c show ?thesis by (intro conjI)
qed

text \<open>
  C5. A heading line that follows an open \<^verbatim>\<open>itemize\<close> at the same indent should
  close it. Its closing loop does collect the closing command, but the comparison with the
  cleared paragraph indent then raises \<^verbatim>\<open>TypeError\<close>: nothing is written for the line
  and there is no stack after it.
\<close>

theorem heading_after_list_raises:
  "convert_lines 4 default_ignore init_state
     [BSL # ''begin{itemize}'' @ [NL], ''# Next'' @ [NL]] = Inl TypeError \<and>
   close_envs (leading_indent (''# Next'' @ [NL])) 4 1 0 [(0, ''itemize'')]
     ([], [(0, ''itemize'')], [4])
     = Inr (BSL # ''end{itemize}'' @ [NL], [], [])"
  by (simp add: step_defs clean_defs render_defs)

text \<open>
  What the closing loop does in general. In every state the conversion reaches and for
  every line, heading or not, the loop closes exactly the frames whose opening indent is
  at least the line's indent: they are the top segment of the stack, their closing
  commands are collected top of the stack first, and the frames of smaller opening indent
  are left as they were. A line that is not a heading is then processed without an
  exception: the closing commands come first in \<^verbatim>\<open>add_text\<close>, the new stack is the
  kept frames below the frame the line may open, and its opening indents do not decrease
  from bottom to top.
\<close>

theorem frames_closed_by_dedent:
  assumes "convert_lines isz ign init_state ls = Inr (st, out)"
  shows "(\<exists>enums'.
            close_envs (leading_indent raw) isz (length (environments st)) 0
              (rev (environments st)) ([], environments st, enum_indents st)
            = Inr (closing_text (closed_frames (leading_indent raw) (environments st)),
                   kept_frames (leading_indent raw) (environments st), enums')) \<and>
         environments st = kept_frames (leading_indent raw) (environments st)
                             @ closed_frames (leading_indent raw) (environments st) \<and>
         (\<not> startswith (clean_line ign raw) ''#'' \<longrightarrow>
          (\<exists>st' add_text body.
             line_step isz ign st raw = Inr (st', add_text, body) \<and>
             (add_text = closing_text (closed_frames (leading_indent raw) (environments st)) \<or>
              add_text = closing_text (closed_frames (leading_indent raw) (environments st))
                           @ [NL]) \<and>
             environments st' = kept_frames (leading_indent raw) (environments st)
                                  @ opened_frame (leading_indent raw) (clean_line ign raw) \<and>
             sorted (map fst (environments st'))))"
proof -
  let ?i = "leading_indent raw"
  let ?E = "environments st"
  let ?P = "\<lambda>(ind, env). ?i \<le> (ind :: int)"
  have inv: "tracker_inv isz st" using reachable_inv [OF assms(1)] .
  then have s: "sorted (map fst ?E)"
    and m: "mset (enum_indents st) = mset (item_entries isz (rev (rev ?E)))"
    by (simp_all add: tracker_inv_def)
  note p = frames_partition [OF s, of ?i]
  have len: "length ?E = length (rev ?E) + 0" by simp
  from sorted_top_segment [OF s, of ?i] have
    k: "rev (dropWhile ?P (rev ?E)) = kept_frames ?i ?E" and
    t: "takeWhile ?P (rev ?E) = rev (closed_frames ?i ?E)"
    by (simp, metis rev_rev_ident)
  from close_envs_shape [OF len m, of ?i "[]"] obtain enums' where
    "close_envs ?i isz (length ?E) 0 (rev ?E) ([], ?E, enum_indents st)
       = Inr ([] @ concat (map (\<lambda>(ind, env). end_text env) (takeWhile ?P (rev ?E))),
              rev (dropWhile ?P (rev ?E)), enums')"
    by auto
  then have c: "\<exists>enums'. close_envs ?i isz (length ?E) 0 (rev ?E) ([], ?E, enum_indents st)
       = Inr (closing_text (closed_frames ?i ?E), kept_frames ?i ?E, enums')"
    unfolding k t closing_text_def by auto
  have "\<exists>st' add_text body.
          line_step isz ign st raw = Inr (st', add_text, body) \<and>
          (add_text = closing_text (closed_frames ?i ?E) \<or>
           add_text = closing_text (closed_frames ?i ?E) @ [NL]) \<and>
          environments st' = kept_frames ?i ?E @ opened_frame ?i (clean_line ign raw) \<and>
          sorted (map fst (environments st'))"
    if nh: "\<not> startswith (clean_line ign raw) ''#''"
  proof -
    from line_step_shape [OF inv nh] obtain st' brk body where
      step: "line_step isz ign st raw = Inr (st', closing_text (closed_frames ?i ?E) @ brk, body)" and
      e: "environments st' = kept_frames ?i ?E @ opened_frame ?i (clean_line ign raw)" and
      b: "brk = (if ?i \<le> baseline st ?i then [NL] else [])"
      unfolding closing_text_def baseline_def by fastforce
    from b have a: "closing_text (closed_frames ?i ?E) @ brk = closing_text (closed_frames ?i ?E) \<or>
          closing_text (closed_frames ?i ?E) @ brk = closing_text (closed_frames ?i ?E) @ [NL]"
      by (cases "?i \<le> baseline st ?i") simp_all
    from line_step_inv [OF inv step] have s': "sorted (map fst (environments st'))"
      by (simp add: tracker_inv_def)
    show ?thesis
      by (rule exI [of _ st'], rule exI [of _ "closing_text (closed_frames ?i ?E) @ brk"],
          rule exI [of _ body])
         (intro conjI step a e s')
  qed
  with c p show ?thesis by (intro conjI impI)
qed

theorem frames_closed_by_dedent_witness:
  "convert_lines 4 default_ignore init_state
     [BSL # ''begin{itemize}'' @ [NL], ''  '' @ BSL # ''begin{proof}'' @ [NL]]
     = Inr (\<lparr>section_indent = None, par_indent = Some 0,
              environments = [(0, ''itemize''), (2, ''proof'')], enum_indents = [4]\<rparr>,
            [NL] @ BSL # ''begin{itemize}'' @ [NL] @ [NL]
              @ BSL # ''begin{proof}'' @ [NL] @ [NL]) \<and>
   \<not> startswith (clean_line default_ignore ('' after'' @ [NL])) ''#'' \<and>
   line_step 4 default_ignore
     \<lparr>section_indent = None, par_indent = Some 0,
      environments = [(0, ''itemize''), (2, ''proof'')], enum_indents = [4]\<rparr>
     ('' after'' @ [NL])
     = Inr (\<lparr>section_indent = None, par_indent = Some 0,
              environments = [(0, ''itemize'')], enum_indents = [4]\<rparr>,
            BSL # ''end{proof}'' @ [NL], ''after'' @ [NL]) \<and>
   leading_indent ('' after'' @ [NL]) = 1 \<and>
   closed_frames 1 [(0, ''itemize''), (2, ''proof'')] = [(2, ''proof'')] \<and>
   kept_frames 1 [(0, ''itemize''), (2, ''proof'')] = [(0, ''itemize'')] \<and>
   closing_text [(2 :: int, ''proof'')] = BSL # ''end{proof}'' @ [NL] \<and>
   environments \<lparr>section_indent = None, par_indent = Some 0,
      environments = [(0, ''itemize''), (2, ''proof'')], enum_indents = [4]\<rparr>
     = kept_frames (leading_indent ('' after'' @ [NL]))
         (environments \<lparr>section_indent = None, par_indent = Some 0,
            environments = [(0, ''itemize''), (2, ''proof'')], enum_indents = [4]\<rparr>)
       @ closed_frames (leading_indent ('' after'' @ [NL]))
           (environments \<lparr>section_indent = None, par_indent = Some 0,
              environments = [(0, ''itemize''), (2, ''proof'')], enum_indents = [4]\<rparr>) \<and>
   sorted (map fst (environments \<lparr>section_indent = None, par_indent = Some 0,
              environments = [(0, ''itemize'')], enum_indents = [4]\<rparr>))"
proof -
  let ?st = "\<lparr>section_indent = None, par_indent = Some 0,
               environments = [(0, ''itemize''), (2, ''proof'')], enum_indents = [4]\<rparr>"
  let ?st' = "\<lparr>section_indent = None, par_indent = Some 0,
                environments = [(0, ''itemize'')], enum_indents = [4]\<rparr>"
  have h1: "convert_lines 4 default_ignore init_state
     [BSL # ''begin{itemize}'' @ [NL], ''  '' @ BSL # ''begin{proof}'' @ [NL]]
     = Inr (?st, [NL] @ BSL # ''begin{itemize}'' @ [NL] @ [NL]
              @ BSL # ''begin{proof}'' @ [NL] @ [NL])"
    by (simp add: step_defs clean_defs render_defs)
  have h2: "\<not> startswith (clean_line default_ignore ('' after'' @ [NL])) ''#''"
    by (simp add: clean_defs)
  have v: "line_step 4 default_ignore ?st ('' after'' @ [NL])
     = Inr (?st', BSL # ''end{proof}'' @ [NL], ''after'' @ [NL])"
    by (simp add: step_defs clean_defs render_defs)
  have i: "leading_indent ('' after'' @ [NL]) = 1" by (simp add: leading_indent_def)
  have k: "closed_frames 1 [(0, ''itemize''), (2, ''proof'')] = [(2, ''proof'')]"
    "kept_frames 1 [(0, ''itemize''), (2, ''proof'')] = [(0, ''itemize'')]"
    "closing_text [(2 :: int, ''proof'')] = BSL # ''end{proof}'' @ [NL]"
    by (simp_all add: closed_frames_def kept_frames_def closing_text_def end_text_def)
  note t = frames_closed_by_dedent [OF h1, of "'' after'' @ [NL]"]
  from t have c2: "environments ?st
       = kept_frames (leading_indent ('' after'' @ [NL])) (environments ?st)
          @ closed_frames (leading_indent ('' after'' @ [NL])) (environments ?st)"
    by blast
  from t h2 obtain st' add_text body where
    c: "line_step 4 default_ignore ?st ('' after'' @ [NL]) = Inr (st', add_text, body)"
       "sorted (map fst (environments st'))"
    by blast
  from c(1) have "Inr (st', add_text, body)
      = (Inr (?st', BSL # ''end{proof}'' @ [NL], ''after'' @ [NL]) :: error + _)"
    unfolding v by (rule sym)
  then have "st' = ?st'" by (simp only: sum.inject prod.inject)
  with c(2) have c4: "sorted (map fst (environments ?st'))" by (simp only:)
  from h1 h2 v i k c2 c4 show ?thesis by (intro conjI)
qed

text \<open>
  C6, as the code has it. An equation line one indent step below an open \<^verbatim>\<open>itemize\<close>
  is not prefixed with the item marker, although its indent is an item indent.
\<close>

theorem equation_line_not_item_marked:
  "line_step 4 default_ignore
     \<lparr>section_indent = None, par_indent = Some 0,
      environments = [(0, ''itemize'')], enum_indents = [4]\<rparr>
     (''    - $$x$$'' @ [NL])
     = Inr (\<lparr>section_indent = None, par_indent = Some 0,
              environments = [(0, ''itemize'')], enum_indents = [4]\<rparr>,
            [], BSL # ''begin{equation*}'' @ [NL] @ ''x'' @ [NL] @ BSL # ''end{equation*}'') \<and>
   item_indent 4 [(0, ''itemize'')] 4"
  by (simp add: step_defs clean_defs render_defs frame_defs)

text \<open>
  C6, amended. In every state the conversion reaches, a line that is neither a heading
  nor an equation block is processed without an exception, and its rendered text is the
  inline rendering of the cleaned text, prefixed with the item marker if and only if the
  line's indent equals opening indent plus indent size of a list frame that is open once
  the line's own closings and opening are done. A frame the line has closed no longer
  counts.
\<close>

theorem item_marker_iff_open_list_frame:
  assumes "convert_lines isz ign init_state ls = Inr (st, out)"
      and "\<not> startswith (clean_line ign raw) ''#''"
      and "latex_eq (clean_line ign raw) = None"
  shows "\<exists>st' add_text body l.
           line_step isz ign st raw = Inr (st', add_text, body) \<and>
           inline_markup (clean_line ign raw) = Inr l \<and>
           body = (if item_indent isz (environments st') (leading_indent raw)
                   then item_marker @ l else l) \<and>
           (body = item_marker @ l) = item_indent isz (environments st') (leading_indent raw) \<and>
           environments st' = kept_frames (leading_indent raw) (environments st)
                                @ opened_frame (leading_indent raw) (clean_line ign raw)"
proof -
  have inv: "tracker_inv isz st" using reachable_inv [OF assms(1)] .
  from line_step_shape [OF inv assms(2)] assms(3) obtain st' add_text body enums' l where
    step: "line_step isz ign st raw = Inr (st', add_text, body)" and
    l: "inline_markup (clean_line ign raw) = Inr l" and
    b: "body = (if leading_indent raw \<in> set enums' then item_marker @ l else l)" and
    e: "environments st' = kept_frames (leading_indent raw) (environments st)
                              @ opened_frame (leading_indent raw) (clean_line ign raw)" and
    m: "mset enums' = mset (item_entries isz
                      (kept_frames (leading_indent raw) (environments st)
                         @ opened_frame (leading_indent raw) (clean_line ign raw)))"
    by fastforce
  from m e have "set enums' = set (item_entries isz (environments st'))"
    by (metis mset_eq_setD)
  with b have b': "body = (if item_indent isz (environments st') (leading_indent raw)
                   then item_marker @ l else l)"
    by (simp add: item_indent_set)
  have "item_marker @ l \<noteq> l" by (simp add: item_marker_def)
  with b' have "(body = item_marker @ l) = item_indent isz (environments st') (leading_indent raw)"
    by auto
  with step l b' e show ?thesis by blast
qed

theorem item_marker_iff_open_list_frame_witness:
  "convert_lines 4 default_ignore init_state [BSL # ''begin{itemize}'' @ [NL]]
     = Inr (\<lparr>section_indent = None, par_indent = Some 0,
              environments = [(0, ''itemize'')], enum_indents = [4]\<rparr>,
            [NL] @ BSL # ''begin{itemize}'' @ [NL] @ [NL]) \<and>
   \<not> startswith (clean_line default_ignore (''    - first'' @ [NL])) ''#'' \<and>
   latex_eq (clean_line default_ignore (''    - first'' @ [NL])) = None \<and>
   line_step 4 default_ignore
     \<lparr>section_indent = None, par_indent = Some 0,
      environments = [(0, ''itemize'')], enum_indents = [4]\<rparr>
     (''    - first'' @ [NL])
     = Inr (\<lparr>section_indent = None, par_indent = Some 0,
              environments = [(0, ''itemize'')], enum_indents = [4]\<rparr>,
            [], BSL # ''item first'' @ [NL]) \<and>
   leading_indent (''    - first'' @ [NL]) = 4 \<and>
   item_indent 4 [(0, ''itemize'')] 4 \<and>
   (\<exists>st' add_text body l.
      line_step 4 default_ignore
        \<lparr>section_indent = None, par_indent = Some 0,
         environments = [(0, ''itemize'')], enum_indents = [4]\<rparr>
        (''    - first'' @ [NL]) = Inr (st', add_text, body) \<and>
      inline_markup (clean_line default_ignore (''    - first'' @ [NL])) = Inr l \<and>
      (body = item_marker @ l)
        = item_indent 4 (environments st') (leading_indent (''    - first'' @ [NL])))"
proof -
  let ?st = "\<lparr>section_indent = None, par_indent = Some 0,
               environments = [(0, ''itemize'')], enum_indents = [4]\<rparr>"
  have h1: "convert_lines 4 default_ignore init_state [BSL # ''begin{itemize}'' @ [NL]]
     = Inr (?st, [NL] @ BSL # ''begin{itemize}'' @ [NL] @ [NL])"
    by (simp add: step_defs clean_defs render_defs)
  have h2: "\<not> startswith (clean_line default_ignore (''    - first'' @ [NL])) ''#''"
    by (simp add: clean_defs)
  have h3: "latex_eq (clean_line default_ignore (''    - first'' @ [NL])) = None"
    by (simp add: clean_defs latex_eq_def)
  have v: "line_step 4 default_ignore ?st (''    - first'' @ [NL])
     = Inr (?st, [], BSL # ''item first'' @ [NL])"
    by (simp add: step_defs clean_defs render_defs)
  have i: "leading_indent (''    - first'' @ [NL]) = 4" by (simp add: leading_indent_def)
  have m: "item_indent 4 [(0, ''itemize'')] 4" by (simp add: item_indent_def list_env_def)
  from item_marker_iff_open_list_frame [OF h1 h2 h3]
  have c: "\<exists>st' add_text body l.
      line_step 4 default_ignore ?st (''    - first'' @ [NL]) = Inr (st', add_text, body) \<and>
      inline_markup (clean_line default_ignore (''    - first'' @ [NL])) = Inr l \<and>
      (body = item_marker @ l)
        = item_indent 4 (environments st') (leading_indent (''    - first'' @ [NL]))"
    by blast
  from h1 h2 h3 v i m c show ?thesis by (intro conjI)
qed

text \<open>
  C7, as the code has it. A line of the form \<^verbatim>\<open>$$a$b$$\<close> has no further pair of dollar
  signs inside, yet it is not turned into an equation block: it goes through the inline
  rules.
\<close>

theorem single_dollar_inside_is_inline:
  "line_step 4 default_ignore init_state (''$$a$b$$'' @ [NL])
     = Inr (\<lparr>section_indent = None, par_indent = Some 0, environments = [],
              enum_indents = []\<rparr>,
            [NL], ''$a$b$'' @ [NL])"
  by (simp add: step_defs clean_defs render_defs)

text \<open>
  C7, amended. In every state the conversion reaches, a line whose cleaned text is two
  dollar signs, a content without any dollar sign, and two dollar signs, up to the newline
  that ends it, is processed without an exception and rendered as the equation environment
  around the content and nothing else: no markup, link or item rule is applied.
\<close>

theorem equation_line_rendered:
  assumes "convert_lines isz ign init_state ls = Inr (st, out)"
      and "clean_line ign raw = ''$$'' @ content @ ''$$'' @ tail"
      and "tail = [] \<or> tail = [NL]"
      and "CHR ''$'' \<notin> set content"
  shows "\<exists>st' add_text. line_step isz ign st raw = Inr (st', add_text, equation_block content)"
proof -
  have inv: "tracker_inv isz st" using reachable_inv [OF assms(1)] .
  have nh: "\<not> startswith (clean_line ign raw) ''#''" by (simp add: assms(2))
  have "latex_eq (clean_line ign raw) = Some content"
    unfolding assms(2) using assms(4,3) by (rule latex_eq_match)
  with line_step_shape [OF inv nh] show ?thesis by auto
qed

theorem equation_line_rendered_witness:
  "convert_lines 4 default_ignore init_state [] = Inr (init_state, []) \<and>
   clean_line default_ignore (''$$x^2 + y^2 = z^2$$'' @ [NL])
     = ''$$'' @ ''x^2 + y^2 = z^2'' @ ''$$'' @ [NL] \<and>
   CHR ''$'' \<notin> set ''x^2 + y^2 = z^2'' \<and>
   (\<exists>st' add_text.
      line_step 4 default_ignore init_state (''$$x^2 + y^2 = z^2$$'' @ [NL])
        = Inr (st', add_text,
               BSL # ''begin{equation*}'' @ [NL] @ ''x^2 + y^2 = z^2'' @ [NL]
                 @ BSL # ''end{equation*}''))"
proof -
  have h1: "convert_lines 4 default_ignore init_state [] = Inr (init_state, [])" by simp
  have h2: "clean_line default_ignore (''$$x^2 + y^2 = z^2$$'' @ [NL])
     = ''$$'' @ ''x^2 + y^2 = z^2'' @ ''$$'' @ [NL]"
    by (simp add: clean_defs)
  have h3: "[NL] = [] \<or> [NL] = [NL]" by simp
  have h4: "CHR ''$'' \<notin> set ''x^2 + y^2 = z^2''" by simp
  from equation_line_rendered [OF h1 h2 h3 h4] h1 h2 h4 show ?thesis
    by (simp add: equation_block_def)
qed

text \<open>
  C8, as the code has it. A line with two occurrences of the bold delimiter whose
  rendered text contains the delimiter again: the double-bracket link, unwrapped after
  the markup passes, brings two asterisks together.
\<close>

theorem delimiter_recreated_by_link:
  "str_count (''**a** *[[*]]'') ''**'' = 2 \<and>
   latex_eq (''**a** *[[*]]'') = None \<and>
   inline_markup (''**a** *[[*]]'') = Inr (BSL # ''textbf{a} **'') \<and>
   has_sub (BSL # ''textbf{a} **'') ''**''"
  by (simp add: render_defs)

text \<open>
  C8, amended. In every state the conversion reaches, for every line that is neither a
  heading nor an equation block, and for each of the three delimiters of which the cleaned
  line has an even number of occurrences: the pass of that delimiter receives a text with
  the same number of occurrences; that text is the chunks joined by the delimiter and no
  chunk contains the delimiter; the pass returns the chunks with every chunk enclosed by a
  pair wrapped in the command and the others, the last one included, left as they are;
  the delimiter occurs neither in what the pass returns nor in the text the three passes
  leave; and the line is processed without an exception, its rendered text being the
  inline-math and link substitutions applied to that text, with or without the item
  marker in front. Only these later substitutions can put the delimiter back.
\<close>

theorem even_delimiters_paired:
  assumes "convert_lines isz ign init_state ls = Inr (st, out)"
      and "\<not> startswith (clean_line ign raw) ''#''"
      and "latex_eq (clean_line ign raw) = None"
      and "markup_passes = before @ (delims, fn) # after"
      and "even (str_count (clean_line ign raw) delims)"
  shows "\<exists>tx chunks l3 st' add_text body.
           apply_passes before (clean_line ign raw) = Inr tx \<and>
           str_count tx delims = str_count (clean_line ign raw) delims \<and>
           str_split tx delims = Inr chunks \<and>
           str_join delims chunks = tx \<and>
           length chunks = Suc (str_count tx delims) \<and>
           list_all (\<lambda>c. \<not> has_sub c delims) chunks \<and>
           replace_markup_via tx delims fn = Inr (concat (wrap_odd fn chunks)) \<and>
           last (wrap_odd fn chunks) = last chunks \<and>
           \<not> has_sub (concat (wrap_odd fn chunks)) delims \<and>
           apply_passes after (concat (wrap_odd fn chunks)) = Inr l3 \<and>
           \<not> has_sub l3 delims \<and>
           line_step isz ign st raw = Inr (st', add_text, body) \<and>
           (body = link_passes l3 \<or> body = item_marker @ link_passes l3)"
proof -
  from pass_in_step [OF assms(1-4)] obtain tx chunks l3 st' add_text body where
    all: "apply_passes before (clean_line ign raw) = Inr tx \<and>
           str_count tx delims = str_count (clean_line ign raw) delims \<and>
           apply_passes after (concat (wrap_odd fn chunks)) = Inr l3 \<and>
           \<not> has_sub l3 delims \<and>
           line_step isz ign st raw = Inr (st', add_text, body) \<and>
           (body = link_passes l3 \<or> body = item_marker @ link_passes l3) \<and>
           str_split tx delims = Inr chunks \<and>
           str_join delims chunks = tx \<and>
           length chunks = Suc (str_count tx delims) \<and>
           list_all (\<lambda>c. \<not> has_sub c delims) chunks \<and>
           replace_markup_via tx delims fn = Inr (concat (wrap_odd fn chunks)) \<and>
           (even (str_count tx delims) \<longrightarrow> last (wrap_odd fn chunks) = last chunks) \<and>
           (odd (str_count tx delims) \<longrightarrow> last (wrap_odd fn chunks) = fn (last chunks)) \<and>
           \<not> has_sub (concat (wrap_odd fn chunks)) delims \<and>
           ((last chunks = [] \<or> last (last chunks) \<noteq> hd delims) \<and> odd (str_count tx delims) \<longrightarrow>
              replace_markup_via (tx @ delims) delims fn = replace_markup_via tx delims fn)"
    by (elim exE) (rule that)
  from all have c: "str_count tx delims = str_count (clean_line ign raw) delims"
    by (elim conjE)
  from all have e: "even (str_count tx delims) \<longrightarrow> last (wrap_odd fn chunks) = last chunks"
    by (elim conjE)
  from assms(5) have ev: "even (str_count tx delims)" unfolding c .
  from e ev have l: "last (wrap_odd fn chunks) = last chunks" by (rule mp)
  from all l show ?thesis
    by (elim conjE) (intro exI conjI; assumption)
qed

theorem even_delimiters_paired_witness:
  "convert_lines 4 default_ignore init_state [] = Inr (init_state, []) \<and>
   \<not> startswith (clean_line default_ignore (''**a** *[[*]]'' @ [NL])) ''#'' \<and>
   latex_eq (clean_line default_ignore (''**a** *[[*]]'' @ [NL])) = None \<and>
   markup_passes = [(''__'', emph)] @ (''**'', textbf) # [(''^^'', hl)] \<and>
   even (str_count (clean_line default_ignore (''**a** *[[*]]'' @ [NL])) ''**'') \<and>
   apply_passes markup_passes (clean_line default_ignore (''**a** *[[*]]'' @ [NL]))
     = Inr (BSL # ''textbf{a} *[[*]]'' @ [NL]) \<and>
   line_step 4 default_ignore init_state (''**a** *[[*]]'' @ [NL])
     = Inr (\<lparr>section_indent = None, par_indent = Some 0, environments = [],
              enum_indents = []\<rparr>,
            [NL], BSL # ''textbf{a} **'' @ [NL]) \<and>
   (\<exists>tx chunks l3 st' add_text body.
           apply_passes [(''__'', emph)] (clean_line default_ignore (''**a** *[[*]]'' @ [NL])) = Inr tx \<and>
           str_count tx ''**'' = str_count (clean_line default_ignore (''**a** *[[*]]'' @ [NL])) ''**'' \<and>
           str_split tx ''**'' = Inr chunks \<and>
           str_join ''**'' chunks = tx \<and>
           length chunks = Suc (str_count tx ''**'') \<and>
           list_all (\<lambda>c. \<not> has_sub c ''**'') chunks \<and>
           replace_markup_via tx ''**'' textbf = Inr (concat (wrap_odd textbf chunks)) \<and>
           last (wrap_odd textbf chunks) = last chunks \<and>
           \<not> has_sub (concat (wrap_odd textbf chunks)) ''**'' \<and>
           apply_passes [(''^^'', hl)] (concat (wrap_odd textbf chunks)) = Inr l3 \<and>
           \<not> has_sub l3 ''**'' \<and>
           line_step 4 default_ignore init_state (''**a** *[[*]]'' @ [NL]) = Inr (st', add_text, body) \<and>
           (body = link_passes l3 \<or> body = item_marker @ link_passes l3))"
proof -
  have h1: "convert_lines 4 default_ignore init_state [] = Inr (init_state, [])" by simp
  have cl: "clean_line default_ignore (''**a** *[[*]]'' @ [NL]) = ''**a** *[[*]]'' @ [NL]"
    by (simp add: clean_defs)
  have h2: "\<not> startswith (clean_line default_ignore (''**a** *[[*]]'' @ [NL])) ''#''"
    unfolding cl by simp
  have h3: "latex_eq (clean_line default_ignore (''**a** *[[*]]'' @ [NL])) = None"
    unfolding cl by (simp add: latex_eq_def)
  have h4: "markup_passes = [(''__'', emph)] @ (''**'', textbf) # [(''^^'', hl)]"
    by (simp add: markup_passes_def)
  have h5: "even (str_count (clean_line default_ignore (''**a** *[[*]]'' @ [NL])) ''**'')"
    unfolding cl by simp
  have v1: "apply_passes markup_passes (clean_line default_ignore (''**a** *[[*]]'' @ [NL]))
     = Inr (BSL # ''textbf{a} *[[*]]'' @ [NL])"
    unfolding cl by (simp add: markup_passes_def render_defs)
  have v2: "line_step 4 default_ignore init_state (''**a** *[[*]]'' @ [NL])
     = Inr (\<lparr>section_indent = None, par_indent = Some 0, environments = [],
              enum_indents = []\<rparr>,
            [NL], BSL # ''textbf{a} **'' @ [NL])"
    by (simp add: step_defs clean_defs render_defs)
  note c = even_delimiters_paired [OF h1 h2 h3 h4 h5]
  from h1 h2 h3 h4 h5 v1 v2 c show ?thesis by (intro conjI)
qed

text \<open>
  C9. An ignored-property line one indent step below an open \<^verbatim>\<open>itemize\<close> is not
  written as an empty line: its text is blanked, but the item marker is still put in
  front of it.
\<close>

theorem ignored_property_item_marked:
  "convert_lines 4 default_ignore init_state
     [BSL # ''begin{itemize}'' @ [NL], ''    - tags:: draft'' @ [NL]]
   = Inr (\<lparr>section_indent = None, par_indent = Some 0,
            environments = [(0, ''itemize'')], enum_indents = [4]\<rparr>,
          [NL] @ BSL # ''begin{itemize}'' @ [NL] @ [NL] @ BSL # ''item '' @ [NL])"
  by (simp add: step_defs clean_defs render_defs)




end
